theory Spec2Isabelle
  imports Main
begin

section \<open>Data model\<close>

text \<open>
  The capacities of the fixed-size arrays of \<^verbatim>\<open>model.c\<close>.
\<close>

definition MAX_WORDS_IN_MODEL :: nat where
  "MAX_WORDS_IN_MODEL = 10000"

definition MAX_STARTING_WORDS :: nat where
  "MAX_STARTING_WORDS = 1000"

definition MAX_FOLLOWING_WORDS :: nat where
  "MAX_FOLLOWING_WORDS = 100"

text \<open>
  \<^verbatim>\<open>struct Word\<close>. A pointer to a \<^verbatim>\<open>Word\<close> is the index of the entry in the
  array \<^verbatim>\<open>words\<close> of the model. The array \<^verbatim>\<open>next_words\<close> together with its fill
  counter \<^verbatim>\<open>n_nw\<close> is the list of the entries written so far, so that \<^verbatim>\<open>n_nw\<close>
  is the length of that list. The scratch array \<^verbatim>\<open>tested\<close> lives inside the entry, as in
  the source, and is a store from array indices to booleans.
\<close>

record Word =
  string :: string
  n_occurrences :: int
  is_sentence_ender :: bool
  next_words :: "nat list"
  tested :: "nat \<Rightarrow> bool"

definition n_nw :: "Word \<Rightarrow> nat" where
  "n_nw w = length (next_words w)"

text \<open>
  \<^verbatim>\<open>struct ModelImplementation\<close>: the filled prefix of \<^verbatim>\<open>words\<close> (of length
  \<^verbatim>\<open>n_w\<close>) and the filled prefix of \<^verbatim>\<open>sentence_starting_words\<close> (of length
  \<^verbatim>\<open>n_ssw\<close>). The fields \<^verbatim>\<open>n_s\<close> and \<^verbatim>\<open>sentences\<close> are never read or
  written by the source and are left out.
\<close>

record Model =
  words :: "Word list"
  sentence_starting_words :: "nat list"

definition n_w :: "Model \<Rightarrow> nat" where
  "n_w model = length (words model)"

definition n_ssw :: "Model \<Rightarrow> nat" where
  "n_ssw model = length (sentence_starting_words model)"

section \<open>Model construction\<close>

text \<open>
  What construction can end in other than a model. \<open>EmptyCorpus\<close> is the
  \<^verbatim>\<open>exit(1)\<close> of \<^verbatim>\<open>create_model\<close> when no word was found. The others are the
  places where the C code has undefined behaviour: a write behind the end of one of the three
  fixed-size arrays, the read in front of an empty token buffer, and a link from the null
  pointer.
\<close>

datatype error =
    EmptyCorpus
  | WordsOverflow
  | StartersOverflow
  | FollowersOverflow
  | EmptyToken
  | NullWord

definition initialize_model :: Model where
  "initialize_model = \<lparr>words = [], sentence_starting_words = []\<rparr>"

definition is_terminator :: "char \<Rightarrow> bool" where
  "is_terminator c \<longleftrightarrow> c = CHR ''.'' \<or> c = CHR ''?'' \<or> c = CHR ''!'' \<or> c = CHR '';''"

text \<open>
  \<^verbatim>\<open>check_if_ends_sentence\<close> looks at the character in front of the terminating
  zero and overwrites it by zero when it is one of the four terminators. The result is the
  buffer afterwards and the returned flag.
\<close>

definition check_if_ends_sentence :: "string \<Rightarrow> (string \<times> bool) option" where
  "check_if_ends_sentence next_word_buf =
     (if next_word_buf = [] then None
      else if is_terminator (last next_word_buf) then Some (butlast next_word_buf, True)
      else Some (next_word_buf, False))"

text \<open>
  \<^verbatim>\<open>tolower\<close> and \<^verbatim>\<open>toupper\<close> of the C locale: the letters of one case are mapped
  to the letters of the other, every other character to itself.
\<close>

definition upper_case :: string where
  "upper_case = ''ABCDEFGHIJKLMNOPQRSTUVWXYZ''"

definition lower_case :: string where
  "lower_case = ''abcdefghijklmnopqrstuvwxyz''"

definition tolower :: "char \<Rightarrow> char" where
  "tolower c = (case map_of (zip upper_case lower_case) c of Some l \<Rightarrow> l | None \<Rightarrow> c)"

definition toupper :: "char \<Rightarrow> char" where
  "toupper c = (case map_of (zip lower_case upper_case) c of Some u \<Rightarrow> u | None \<Rightarrow> c)"

text \<open>
  \<^verbatim>\<open>*next_word_buf = tolower(*next_word_buf)\<close>: on the empty string the character
  written is the terminating zero itself.
\<close>

definition decapitalize :: "string \<Rightarrow> string" where
  "decapitalize buf = (case buf of [] \<Rightarrow> [] | c # cs \<Rightarrow> tolower c # cs)"

fun search_words_from :: "Word list \<Rightarrow> string \<Rightarrow> nat \<Rightarrow> nat option" where
  "search_words_from [] next_word_buf i = None"
| "search_words_from (w # ws) next_word_buf i =
     (if string w = next_word_buf then Some i else search_words_from ws next_word_buf (Suc i))"

definition search_words :: "Model \<Rightarrow> string \<Rightarrow> nat option" where
  "search_words model next_word_buf = search_words_from (words model) next_word_buf 0"

text \<open>
  \<^verbatim>\<open>create_word\<close> writes four fields of the entry behind the last one. It does not
  touch \<^verbatim>\<open>tested\<close>, which keeps what the allocation held; the model takes the zeroed
  store a fresh allocation of this size has. No result below reads a \<^verbatim>\<open>tested\<close>
  cell before the search has written it.
\<close>

definition create_word :: "Model \<Rightarrow> string \<Rightarrow> bool \<Rightarrow> error + (Model \<times> nat)" where
  "create_word model next_word_buf ends_sentence =
     (if n_w model \<ge> MAX_WORDS_IN_MODEL then Inl WordsOverflow
      else Inr (model\<lparr>words := words model @
                  [\<lparr>string = next_word_buf, n_occurrences = 1,
                    is_sentence_ender = ends_sentence, next_words = [],
                    tested = (\<lambda>_. False)\<rparr>]\<rparr>,
                n_w model))"

definition add_next_word_to_model ::
    "Model \<Rightarrow> string \<Rightarrow> bool \<Rightarrow> bool \<Rightarrow> error + (Model \<times> nat)" where
  "add_next_word_to_model model next_word_buf ends_sentence new_sentence =
     (let buf = (if new_sentence then decapitalize next_word_buf else next_word_buf) in
      case search_words model buf of
        Some match \<Rightarrow>
          (let w = words model ! match;
               w1 = (if ends_sentence then w\<lparr>is_sentence_ender := True\<rparr> else w);
               w2 = w1\<lparr>n_occurrences := n_occurrences w1 + 1\<rparr>
           in Inr (model\<lparr>words := (words model)[match := w2]\<rparr>, match))
      | None \<Rightarrow> create_word model buf ends_sentence)"

definition link_words :: "Model \<Rightarrow> nat option \<Rightarrow> nat \<Rightarrow> error + Model" where
  "link_words model this_word next_word =
     (case this_word of
        None \<Rightarrow> Inl NullWord
      | Some t \<Rightarrow>
          (let w = words model ! t in
           if n_nw w \<ge> MAX_FOLLOWING_WORDS then Inl FollowersOverflow
           else Inr (model\<lparr>words := (words model)[t := w\<lparr>next_words := next_words w @ [next_word]\<rparr>]\<rparr>)))"

text \<open>
  The state of the loop of \<^verbatim>\<open>create_model\<close>: the model, \<^verbatim>\<open>this_word\<close> (null before
  the first token) and \<^verbatim>\<open>new_sentence\<close>.
\<close>

type_synonym builder = "Model \<times> nat option \<times> bool"

text \<open>One turn of the loop of \<^verbatim>\<open>create_model\<close>, on the token the scanner returned.\<close>

definition create_model_step :: "builder \<Rightarrow> string \<Rightarrow> error + builder" where
  "create_model_step b tok =
     (case b of (model, this_word, new_sentence) \<Rightarrow>
       (case check_if_ends_sentence tok of
          None \<Rightarrow> Inl EmptyToken
        | Some (next_word_buf, ends_sentence) \<Rightarrow>
           (case add_next_word_to_model model next_word_buf ends_sentence new_sentence of
              Inl e \<Rightarrow> Inl e
            | Inr (model1, next_word) \<Rightarrow>
               (case (if new_sentence
                      then (if n_ssw model1 \<ge> MAX_STARTING_WORDS then Inl StartersOverflow
                            else Inr (model1\<lparr>sentence_starting_words :=
                                        sentence_starting_words model1 @ [next_word]\<rparr>))
                      else link_words model1 this_word next_word) of
                  Inl e \<Rightarrow> Inl e
                | Inr model2 \<Rightarrow>
                    (if ends_sentence
                     then Inr (model2\<lparr>words := (words model2)
                                 [next_word := (words model2 ! next_word)
                                    \<lparr>is_sentence_ender := True\<rparr>]\<rparr>,
                               Some next_word, True)
                     else Inr (model2, Some next_word, False))))))"

fun create_model_loop :: "builder \<Rightarrow> string list \<Rightarrow> error + builder" where
  "create_model_loop b [] = Inr b"
| "create_model_loop b (tok # text) =
     (case create_model_step b tok of
        Inl e \<Rightarrow> Inl e
      | Inr b1 \<Rightarrow> create_model_loop b1 text)"

text \<open>
  \<^verbatim>\<open>create_model\<close> on the tokens that \<^verbatim>\<open>scan_next_word\<close> delivers until it fails.
\<close>

definition create_model :: "string list \<Rightarrow> error + Model" where
  "create_model text =
     (case create_model_loop (initialize_model, None, True) text of
        Inl e \<Rightarrow> Inl e
      | Inr (model, this_word, new_sentence) \<Rightarrow>
          if n_w model = 0 then Inl EmptyCorpus else Inr model)"

section \<open>Sentence synthesis\<close>

text \<open>
  The search calls \<^verbatim>\<open>rand()\<close>, whose values the source does not determine: \<open>rand\<close>
  is the sequence of the values that the successive calls return, and the state counts the
  calls made so far. The \<^verbatim>\<open>while\<close> loops of the search draw an index and try again when
  it was drawn before, so a run can be arbitrarily long: the functions take fuel, one unit for
  every call and every turn of a loop, and \<open>OutOfFuel\<close> says that the fuel did not suffice.
  \<open>Fault\<close> is a run that ends in undefined behaviour or in a failed assertion.
\<close>

datatype fault = DivisionByZero | AssertionFailed | BadArrayLength

datatype 'a outcome = OutOfFuel | Fault fault | Value 'a

text \<open>
  \<^verbatim>\<open>random_int\<close>. The dividend \<^verbatim>\<open>rand()\<close> is not negative, so the remainder of C is
  the remainder by the absolute value of the divisor.
\<close>

definition random_int :: "(nat \<Rightarrow> nat) \<Rightarrow> nat \<Rightarrow> int \<Rightarrow> int \<Rightarrow> (int \<times> nat) outcome" where
  "random_int rand calls lower_bound upper_bound =
     (let range = upper_bound - lower_bound + 1 in
      if range = 0 then Fault DivisionByZero
      else
        (let r = int (rand calls) mod \<bar>range\<bar> + lower_bound in
         if r \<ge> lower_bound \<and> r \<le> upper_bound then Value (r, Suc calls)
         else Fault AssertionFailed))"

function not_all_checked_from :: "(nat \<Rightarrow> bool) \<Rightarrow> nat \<Rightarrow> nat \<Rightarrow> bool" where
  "not_all_checked_from array n_elems i =
     (if i < n_elems
      then (if \<not> array i then True else not_all_checked_from array n_elems (Suc i))
      else False)"
  by pat_completeness auto
termination
  by (relation "measure (\<lambda>(array, n_elems, i). n_elems - i)") auto

declare not_all_checked_from.simps [simp del]

definition not_all_checked :: "(nat \<Rightarrow> bool) \<Rightarrow> nat \<Rightarrow> bool" where
  "not_all_checked array n_elems = not_all_checked_from array n_elems 0"

text \<open>
  The state a search works on: the model (whose entries hold the \<^verbatim>\<open>tested\<close> arrays),
  the array \<^verbatim>\<open>sentence\<close> of the caller, and the number of calls of \<^verbatim>\<open>rand()\<close>.
\<close>

record search =
  st_model :: Model
  st_sentence :: "nat list"
  st_rand_calls :: nat

text \<open>Writing the array \<^verbatim>\<open>tested\<close> of the entry a pointer refers to.\<close>

definition set_tested :: "search \<Rightarrow> nat \<Rightarrow> (nat \<Rightarrow> bool) \<Rightarrow> search" where
  "set_tested st p t =
     st\<lparr>st_model := (st_model st)\<lparr>words := (words (st_model st))
           [p := (words (st_model st) ! p)\<lparr>tested := t\<rparr>]\<rparr>\<rparr>"

text \<open>\<^verbatim>\<open>for (int i = 0; i < n; i++) array[i] = false\<close>\<close>

definition clear_flags :: "(nat \<Rightarrow> bool) \<Rightarrow> nat \<Rightarrow> (nat \<Rightarrow> bool)" where
  "clear_flags array n = fold (\<lambda>i a. a(i := False)) [0..<n] array"

text \<open>
  \<^verbatim>\<open>find_words_recursive\<close> and its \<^verbatim>\<open>while\<close> loop. The loop reads the entry of
  \<^verbatim>\<open>this_word\<close> from the state in every turn, as the source reads through the pointer.
\<close>

fun find_words_recursive ::
    "(nat \<Rightarrow> nat) \<Rightarrow> nat \<Rightarrow> nat \<Rightarrow> nat \<Rightarrow> search \<Rightarrow> (bool \<times> search) outcome"
and find_words_recursive_loop ::
    "(nat \<Rightarrow> nat) \<Rightarrow> nat \<Rightarrow> nat \<Rightarrow> nat \<Rightarrow> nat \<Rightarrow> search \<Rightarrow> (bool \<times> search) outcome"
where
  "find_words_recursive rand 0 len cur_index st = OutOfFuel"
| "find_words_recursive rand (Suc fuel) len cur_index st =
     (if len = cur_index + 1
      then Value (is_sentence_ender (words (st_model st) ! (st_sentence st ! (len - 1))), st)
      else
        (let this_word = st_sentence st ! cur_index;
             w = words (st_model st) ! this_word;
             st1 = set_tested st this_word (clear_flags (tested w) (n_nw w))
         in find_words_recursive_loop rand fuel len cur_index this_word st1))"
| "find_words_recursive_loop rand 0 len cur_index this_word st = OutOfFuel"
| "find_words_recursive_loop rand (Suc fuel) len cur_index this_word st =
     (let w = words (st_model st) ! this_word in
      if not_all_checked (tested w) (n_nw w)
      then
        (case random_int rand (st_rand_calls st) 0 (int (n_nw w) - 1) of
           OutOfFuel \<Rightarrow> OutOfFuel
         | Fault f \<Rightarrow> Fault f
         | Value (nw_index, calls) \<Rightarrow>
             (let st1 = st\<lparr>st_rand_calls := calls\<rparr>;
                  i = nat nw_index
              in if \<not> tested w i
                 then
                   (let st2 = set_tested st1 this_word ((tested w)(i := True));
                        next_word = next_words w ! i;
                        st3 = st2\<lparr>st_sentence := (st_sentence st2)[cur_index + 1 := next_word]\<rparr>
                    in (case find_words_recursive rand fuel len (cur_index + 1) st3 of
                          OutOfFuel \<Rightarrow> OutOfFuel
                        | Fault f \<Rightarrow> Fault f
                        | Value (found, st4) \<Rightarrow>
                            if found then Value (True, st4)
                            else find_words_recursive_loop rand fuel len cur_index this_word st4))
                 else find_words_recursive_loop rand fuel len cur_index this_word st1))
      else Value (False, st))"

text \<open>
  The loop of \<^verbatim>\<open>find_words\<close>. Its marker array \<^verbatim>\<open>ssw_checked\<close> is a local of the
  call.
\<close>

fun find_words_loop ::
    "(nat \<Rightarrow> nat) \<Rightarrow> nat \<Rightarrow> nat \<Rightarrow> (nat \<Rightarrow> bool) \<Rightarrow> search \<Rightarrow> (bool \<times> search) outcome"
where
  "find_words_loop rand 0 len ssw_checked st = OutOfFuel"
| "find_words_loop rand (Suc fuel) len ssw_checked st =
     (let model = st_model st in
      if not_all_checked ssw_checked (n_ssw model)
      then
        (case random_int rand (st_rand_calls st) 0 (int (n_ssw model) - 1) of
           OutOfFuel \<Rightarrow> OutOfFuel
         | Fault f \<Rightarrow> Fault f
         | Value (ssw_index, calls) \<Rightarrow>
             (let st1 = st\<lparr>st_rand_calls := calls\<rparr>;
                  i = nat ssw_index
              in if \<not> ssw_checked i
                 then
                   (let ssw_checked1 = ssw_checked(i := True);
                        st2 = st1\<lparr>st_sentence :=
                                (st_sentence st1)[0 := sentence_starting_words model ! i]\<rparr>
                    in (case find_words_recursive rand fuel len 0 st2 of
                          OutOfFuel \<Rightarrow> OutOfFuel
                        | Fault f \<Rightarrow> Fault f
                        | Value (found, st3) \<Rightarrow>
                            if found then Value (True, st3)
                            else find_words_loop rand fuel len ssw_checked1 st3))
                 else find_words_loop rand fuel len ssw_checked st1))
      else Value (False, st))"

text \<open>
  \<^verbatim>\<open>find_words\<close>: the local array is declared with \<^verbatim>\<open>n_ssw\<close> cells and cleared;
  cells from \<^verbatim>\<open>n_ssw\<close> on do not exist and are never addressed.
\<close>

definition find_words ::
    "(nat \<Rightarrow> nat) \<Rightarrow> nat \<Rightarrow> nat \<Rightarrow> search \<Rightarrow> (bool \<times> search) outcome" where
  "find_words rand fuel len st =
     find_words_loop rand fuel len (clear_flags (\<lambda>_. False) (n_ssw (st_model st))) st"

section \<open>Formatting\<close>

function combine_words_loop :: "Word list \<Rightarrow> nat \<Rightarrow> nat \<Rightarrow> string \<Rightarrow> string" where
  "combine_words_loop sentence len i sentence_string =
     (if i < len
      then
        (let next_word = string (sentence ! i);
             buf = sentence_string @ next_word @ (if i = len - 1 then ''.'' else '' '')
         in combine_words_loop sentence len (Suc i) buf)
      else sentence_string)"
  by pat_completeness auto
termination
  by (relation "measure (\<lambda>(sentence, len, i, sentence_string). len - i)") auto

declare combine_words_loop.simps [simp del]

text \<open>
  \<^verbatim>\<open>combine_words\<close>; the last statement applies \<^verbatim>\<open>toupper\<close> to the first character
  of the string (on the empty string, to the terminating zero).
\<close>

definition combine_words :: "Word list \<Rightarrow> nat \<Rightarrow> string" where
  "combine_words sentence len =
     (case combine_words_loop sentence len 0 [] of
        [] \<Rightarrow> []
      | c # cs \<Rightarrow> toupper c # cs)"

text \<open>
  \<^verbatim>\<open>generate_sentence\<close>. The array \<^verbatim>\<open>sentence\<close> is declared with \<^verbatim>\<open>length\<close>
  cells, which is undefined when \<^verbatim>\<open>length\<close> is not positive; its cells are not
  initialised, and the model fills them with the pointer to the first entry. The result is the
  string (none for the null pointer) and the state the call leaves behind.
\<close>

definition generate_sentence ::
    "(nat \<Rightarrow> nat) \<Rightarrow> nat \<Rightarrow> Model \<Rightarrow> nat \<Rightarrow> int \<Rightarrow> (string option \<times> search) outcome" where
  "generate_sentence rand fuel model calls len =
     (if len \<le> 0 then Fault BadArrayLength
      else
        (case find_words rand fuel (nat len)
                \<lparr>st_model = model, st_sentence = replicate (nat len) 0, st_rand_calls = calls\<rparr> of
           OutOfFuel \<Rightarrow> OutOfFuel
         | Fault f \<Rightarrow> Fault f
         | Value (found, st) \<Rightarrow>
             if found
             then Value (Some (combine_words
                                 (map (\<lambda>p. words (st_model st) ! p) (st_sentence st)) (nat len)),
                         st)
             else Value (None, st)))"

section \<open>Predicates of the specification\<close>

text \<open>
  The fields of an entry that the specification lists: text, occurrence count, sentence-ending
  flag and successors. \<open>same_entries\<close> says that two models agree on them and on the
  sentence starters, whatever their \<^verbatim>\<open>tested\<close> arrays hold.
\<close>

definition static :: "Word \<Rightarrow> string \<times> int \<times> bool \<times> nat list" where
  "static w = (string w, n_occurrences w, is_sentence_ender w, next_words w)"

definition same_entries :: "Model \<Rightarrow> Model \<Rightarrow> bool" where
  "same_entries m m' \<longleftrightarrow>
     n_w m' = n_w m \<and>
     (\<forall>q. static (words m' ! q) = static (words m ! q)) \<and>
     sentence_starting_words m' = sentence_starting_words m"

text \<open>A model is well formed when every pointer it stores refers to one of its entries.\<close>

definition wf_model :: "Model \<Rightarrow> bool" where
  "wf_model m \<longleftrightarrow>
     (\<forall>w \<in> set (words m). \<forall>p \<in> set (next_words w). p < n_w m) \<and>
     (\<forall>p \<in> set (sentence_starting_words m). p < n_w m)"

text \<open>
  A valid chain of \<open>n\<close> words: it starts with a sentence starter, every word is among the
  successors of the word before it, and the last word ends a sentence. \<open>chain_from\<close> is
  the part of this from position \<open>cur\<close> on.
\<close>

definition valid_chain :: "Model \<Rightarrow> nat list \<Rightarrow> nat \<Rightarrow> bool" where
  "valid_chain model s n \<longleftrightarrow>
     length s = n \<and>
     s ! 0 \<in> set (sentence_starting_words model) \<and>
     (\<forall>i. Suc i < n \<longrightarrow> s ! Suc i \<in> set (next_words (words model ! (s ! i)))) \<and>
     is_sentence_ender (words model ! (s ! (n - 1)))"

definition chain_from :: "Model \<Rightarrow> nat list \<Rightarrow> nat \<Rightarrow> nat \<Rightarrow> bool" where
  "chain_from m s cur len \<longleftrightarrow>
     (\<forall>i. cur \<le> i \<and> Suc i < len \<longrightarrow> s ! Suc i \<in> set (next_words (words m ! (s ! i)))) \<and>
     is_sentence_ender (words m ! (s ! (len - 1)))"

text \<open>
  What a call of \<^verbatim>\<open>find_words_recursive\<close> at position \<open>cur\<close> needs and what it
  leaves behind.
\<close>

definition pre :: "nat \<Rightarrow> nat \<Rightarrow> search \<Rightarrow> bool" where
  "pre cur len st \<longleftrightarrow>
     cur < len \<and> length (st_sentence st) = len"

definition post :: "nat \<Rightarrow> nat \<Rightarrow> search \<Rightarrow> bool \<Rightarrow> search \<Rightarrow> bool" where
  "post cur len st found st' \<longleftrightarrow>
     same_entries (st_model st) (st_model st') \<and>
     length (st_sentence st') = length (st_sentence st) \<and>
     st_rand_calls st \<le> st_rand_calls st' \<and>
     take (Suc cur) (st_sentence st') = take (Suc cur) (st_sentence st) \<and>
     (found \<longrightarrow> chain_from (st_model st) (st_sentence st') cur len)"

section \<open>Example models\<close>

text \<open>The model that \<^verbatim>\<open>create_model\<close> builds from the text \<^verbatim>\<open>a b.\<close>\<close>

definition example_model :: Model where
  "example_model =
     \<lparr>words = [\<lparr>string = ''a'', n_occurrences = 1, is_sentence_ender = False,
                 next_words = [1], tested = (\<lambda>_. False)\<rparr>,
                \<lparr>string = ''b'', n_occurrences = 1, is_sentence_ender = True,
                 next_words = [], tested = (\<lambda>_. False)\<rparr>],
      sentence_starting_words = [0]\<rparr>"

text \<open>
  The cell \<open>i\<close> of the array \<^verbatim>\<open>tested\<close> of entry \<open>p\<close> in the model a run leaves
  behind.
\<close>

definition tested_after :: "(string option \<times> search) outcome \<Rightarrow> nat \<Rightarrow> nat \<Rightarrow> bool option" where
  "tested_after r p i =
     (case r of Value (s, st) \<Rightarrow> Some (tested (words (st_model st) ! p) i) | _ \<Rightarrow> None)"

text \<open>The model built from the text \<^verbatim>\<open>a b. a b.\<close>\<close>

definition stuck_model :: Model where
  "stuck_model =
     \<lparr>words = [\<lparr>string = ''a'', n_occurrences = 2, is_sentence_ender = False,
                 next_words = [1, 1], tested = (\<lambda>_. False)\<rparr>,
                \<lparr>string = ''b'', n_occurrences = 2, is_sentence_ender = True,
                 next_words = [], tested = (\<lambda>_. False)\<rparr>],
      sentence_starting_words = [0, 0]\<rparr>"

text \<open>The model built from the text \<^verbatim>\<open>a a b c.\<close>\<close>

definition chain_model :: Model where
  "chain_model =
     \<lparr>words = [\<lparr>string = ''a'', n_occurrences = 2, is_sentence_ender = False,
                 next_words = [0, 1], tested = (\<lambda>_. False)\<rparr>,
                \<lparr>string = ''b'', n_occurrences = 1, is_sentence_ender = False,
                 next_words = [2], tested = (\<lambda>_. False)\<rparr>,
                \<lparr>string = ''c'', n_occurrences = 1, is_sentence_ender = True,
                 next_words = [], tested = (\<lambda>_. False)\<rparr>],
      sentence_starting_words = [0]\<rparr>"

text \<open>A source of random numbers that returns 0 at every call.\<close>

definition constant_rand :: "nat \<Rightarrow> nat" where
  "constant_rand k = 0"

text \<open>The string that a run of \<^verbatim>\<open>generate_sentence\<close> returns.\<close>

definition sentence_of :: "(string option \<times> search) outcome \<Rightarrow> string option outcome" where
  "sentence_of r = map_outcome fst r"

section \<open>Predicates for termination\<close>

text \<open>
  The values of \<^verbatim>\<open>rand()\<close> are fair for a model when, for the number of sentence starters
  and for the number of successors of every entry as the range, every index of the range is
  drawn again after any number of calls.
\<close>

definition fair_for :: "(nat \<Rightarrow> nat) \<Rightarrow> Model \<Rightarrow> bool" where
  "fair_for rand m \<longleftrightarrow>
     (\<forall>n \<in> insert (n_ssw m) (n_nw ` set (words m)). \<forall>i<n. \<forall>k. \<exists>j\<ge>k. rand j mod n = i)"

text \<open>
  The markers of entry \<open>p\<close> are exhausted when all of them are set; they are kept from one
  model to the other when they are exhausted in the second or the same in both.
\<close>

definition exhausted :: "Model \<Rightarrow> nat \<Rightarrow> bool" where
  "exhausted m p \<longleftrightarrow> (\<forall>i<n_nw (words m ! p). tested (words m ! p) i)"

definition markers_kept :: "Model \<Rightarrow> Model \<Rightarrow> nat \<Rightarrow> bool" where
  "markers_kept m m' p \<longleftrightarrow> exhausted m' p \<or> tested (words m' ! p) = tested (words m ! p)"

text \<open>
  A state is ready for position \<open>cur\<close> when the array has the requested length, the model
  agrees with the well-formed model \<open>m0\<close> the search started with, and the word at
  \<open>cur\<close> is one of its entries.
\<close>

definition ready :: "Model \<Rightarrow> nat \<Rightarrow> nat \<Rightarrow> search \<Rightarrow> bool" where
  "ready m0 cur len st \<longleftrightarrow>
     pre cur len st \<and> same_entries m0 (st_model st) \<and> st_sentence st ! cur < n_w m0"

section \<open>Basic facts about the search\<close>

lemma not_all_checked_from_iff:
  "not_all_checked_from array n i \<longleftrightarrow> (\<exists>j. i \<le> j \<and> j < n \<and> \<not> array j)"
proof (induction array n i rule: not_all_checked_from.induct)
  case (1 array n i)
  show ?case
  proof (cases "i < n \<and> array i")
    case True
    then have "not_all_checked_from array n i = not_all_checked_from array n (Suc i)"
      by (subst not_all_checked_from.simps) simp
    also have "\<dots> \<longleftrightarrow> (\<exists>j. Suc i \<le> j \<and> j < n \<and> \<not> array j)"
      using 1 True by simp
    also have "\<dots> \<longleftrightarrow> (\<exists>j. i \<le> j \<and> j < n \<and> \<not> array j)"
      using True by (metis Suc_leD Suc_leI le_neq_implies_less)
    finally show ?thesis .
  next
    case False
    then show ?thesis
      by (subst not_all_checked_from.simps) auto
  qed
qed

lemma not_all_checked_iff: "not_all_checked array n \<longleftrightarrow> (\<exists>j<n. \<not> array j)"
  by (simp add: not_all_checked_def not_all_checked_from_iff)

lemma clear_flags_apply: "clear_flags array n i = (if i < n then False else array i)"
  unfolding clear_flags_def by (induction n arbitrary: i) (auto simp: less_Suc_eq)

lemma random_int_index:
  "random_int rand calls 0 (int n - 1) =
     (if n = 0 then Fault DivisionByZero else Value (int (rand calls mod n), Suc calls))"
  by (auto simp: random_int_def Let_def zmod_int)

lemma find_words_recursive_loop_Suc:
  "find_words_recursive_loop rand (Suc fuel) len cur_index this_word st =
     (let w = words (st_model st) ! this_word in
      if \<exists>j<n_nw w. \<not> tested w j
      then
        (let i = rand (st_rand_calls st) mod n_nw w;
             st1 = st\<lparr>st_rand_calls := Suc (st_rand_calls st)\<rparr>
         in if tested w i then find_words_recursive_loop rand fuel len cur_index this_word st1
            else
              (case find_words_recursive rand fuel len (Suc cur_index)
                      ((set_tested st1 this_word ((tested w)(i := True)))
                         \<lparr>st_sentence := (st_sentence st)[Suc cur_index := next_words w ! i]\<rparr>) of
                 OutOfFuel \<Rightarrow> OutOfFuel
               | Fault f \<Rightarrow> Fault f
               | Value (found, st4) \<Rightarrow>
                   if found then Value (True, st4)
                   else find_words_recursive_loop rand fuel len cur_index this_word st4))
      else Value (False, st))"
  by (auto simp: Let_def not_all_checked_iff random_int_index set_tested_def
           split: outcome.splits)

lemma find_words_recursive_Suc:
  "find_words_recursive rand (Suc fuel) len cur_index st =
     (if len = Suc cur_index
      then Value (is_sentence_ender (words (st_model st) ! (st_sentence st ! cur_index)), st)
      else find_words_recursive_loop rand fuel len cur_index (st_sentence st ! cur_index)
             (set_tested st (st_sentence st ! cur_index)
                (clear_flags (tested (words (st_model st) ! (st_sentence st ! cur_index)))
                   (n_nw (words (st_model st) ! (st_sentence st ! cur_index))))))"
  by (auto simp: Let_def)

lemma find_words_loop_Suc:
  "find_words_loop rand (Suc fuel) len ssw_checked st =
     (let n = n_ssw (st_model st) in
      if \<exists>j<n. \<not> ssw_checked j
      then
        (let i = rand (st_rand_calls st) mod n;
             st1 = st\<lparr>st_rand_calls := Suc (st_rand_calls st)\<rparr>
         in if ssw_checked i then find_words_loop rand fuel len ssw_checked st1
            else
              (case find_words_recursive rand fuel len 0
                      (st1\<lparr>st_sentence :=
                            (st_sentence st)[0 := sentence_starting_words (st_model st) ! i]\<rparr>) of
                 OutOfFuel \<Rightarrow> OutOfFuel
               | Fault f \<Rightarrow> Fault f
               | Value (found, st3) \<Rightarrow>
                   if found then Value (True, st3)
                   else find_words_loop rand fuel len (ssw_checked(i := True)) st3))
      else Value (False, st))"
  by (auto simp: Let_def not_all_checked_iff random_int_index split: outcome.splits)

declare find_words_recursive.simps(2) [simp del] find_words_recursive_loop.simps(2) [simp del]
  find_words_loop.simps(2) [simp del]

lemma find_words_recursive_loop_exit:
  assumes "w = words (st_model st) ! this_word" "\<forall>j<n_nw w. tested w j"
  shows "find_words_recursive_loop rand (Suc fuel) len cur_index this_word st = Value (False, st)"
  using assms by (auto simp: find_words_recursive_loop_Suc Let_def)

lemma find_words_recursive_loop_skip:
  assumes "w = words (st_model st) ! this_word" "\<exists>j<n_nw w. \<not> tested w j"
    and "tested w (rand (st_rand_calls st) mod n_nw w)"
  shows "find_words_recursive_loop rand (Suc fuel) len cur_index this_word st =
         find_words_recursive_loop rand fuel len cur_index this_word
           (st\<lparr>st_rand_calls := Suc (st_rand_calls st)\<rparr>)"
  using assms by (auto simp: find_words_recursive_loop_Suc Let_def)

lemma find_words_recursive_loop_try:
  assumes "w = words (st_model st) ! this_word" "i = rand (st_rand_calls st) mod n_nw w"
    and "\<exists>j<n_nw w. \<not> tested w j" "\<not> tested w i"
  shows "find_words_recursive_loop rand (Suc fuel) len cur_index this_word st =
         (case find_words_recursive rand fuel len (Suc cur_index)
                 ((set_tested (st\<lparr>st_rand_calls := Suc (st_rand_calls st)\<rparr>) this_word
                     ((tested w)(i := True)))
                    \<lparr>st_sentence := (st_sentence st)[Suc cur_index := next_words w ! i]\<rparr>) of
            OutOfFuel \<Rightarrow> OutOfFuel
          | Fault f \<Rightarrow> Fault f
          | Value (found, st4) \<Rightarrow>
              if found then Value (True, st4)
              else find_words_recursive_loop rand fuel len cur_index this_word st4)"
  using assms by (auto simp: find_words_recursive_loop_Suc Let_def)

lemma find_words_loop_exit:
  assumes "\<forall>j<n_ssw (st_model st). ssw_checked j"
  shows "find_words_loop rand (Suc fuel) len ssw_checked st = Value (False, st)"
  using assms by (auto simp: find_words_loop_Suc Let_def)

lemma find_words_loop_skip:
  assumes "\<exists>j<n_ssw (st_model st). \<not> ssw_checked j"
    and "ssw_checked (rand (st_rand_calls st) mod n_ssw (st_model st))"
  shows "find_words_loop rand (Suc fuel) len ssw_checked st =
         find_words_loop rand fuel len ssw_checked (st\<lparr>st_rand_calls := Suc (st_rand_calls st)\<rparr>)"
  using assms by (auto simp: find_words_loop_Suc Let_def)

lemma find_words_loop_try:
  assumes "i = rand (st_rand_calls st) mod n_ssw (st_model st)"
    and "\<exists>j<n_ssw (st_model st). \<not> ssw_checked j" "\<not> ssw_checked i"
  shows "find_words_loop rand (Suc fuel) len ssw_checked st =
         (case find_words_recursive rand fuel len 0
                 (st\<lparr>st_rand_calls := Suc (st_rand_calls st),
                     st_sentence := (st_sentence st)[0 := sentence_starting_words (st_model st) ! i]\<rparr>) of
            OutOfFuel \<Rightarrow> OutOfFuel
          | Fault f \<Rightarrow> Fault f
          | Value (found, st3) \<Rightarrow>
              if found then Value (True, st3)
              else find_words_loop rand fuel len (ssw_checked(i := True)) st3)"
  using assms by (auto simp: find_words_loop_Suc Let_def)

lemma same_entries_refl [simp]: "same_entries m m"
  by (simp add: same_entries_def)

lemma same_entries_trans: "same_entries a b \<Longrightarrow> same_entries b c \<Longrightarrow> same_entries a c"
  by (simp add: same_entries_def)

lemma static_update:
  "static ((xs[p := (xs ! p)\<lparr>tested := t\<rparr>]) ! q) = static (xs ! q)"
proof (cases "p < length xs")
  case True
  then show ?thesis by (cases "q = p") (simp_all add: static_def)
next
  case False
  then show ?thesis by (simp add: list_update_beyond)
qed

lemma same_entries_set_tested [simp]: "same_entries (st_model st) (st_model (set_tested st p t))"
  by (simp add: same_entries_def set_tested_def static_update n_w_def)

lemma set_tested_simps [simp]:
  "st_sentence (set_tested st p t) = st_sentence st"
  "st_rand_calls (set_tested st p t) = st_rand_calls st"
  "n_w (st_model (set_tested st p t)) = n_w (st_model st)"
  "sentence_starting_words (st_model (set_tested st p t)) = sentence_starting_words (st_model st)"
  by (simp_all add: set_tested_def n_w_def)

lemma same_entries_fields:
  assumes "same_entries m m'"
  shows "string (words m' ! p) = string (words m ! p)"
    and "n_occurrences (words m' ! p) = n_occurrences (words m ! p)"
    and "is_sentence_ender (words m' ! p) = is_sentence_ender (words m ! p)"
    and "next_words (words m' ! p) = next_words (words m ! p)"
    and "n_nw (words m' ! p) = n_nw (words m ! p)"
proof -
  have "static (words m' ! p) = static (words m ! p)"
    using assms by (simp add: same_entries_def)
  then show "string (words m' ! p) = string (words m ! p)"
    and "n_occurrences (words m' ! p) = n_occurrences (words m ! p)"
    and "is_sentence_ender (words m' ! p) = is_sentence_ender (words m ! p)"
    and "next_words (words m' ! p) = next_words (words m ! p)"
    and "n_nw (words m' ! p) = n_nw (words m ! p)"
    by (simp_all add: static_def n_nw_def)
qed

lemma same_entries_n_w: "same_entries m m' \<Longrightarrow> n_w m' = n_w m"
  by (simp add: same_entries_def)

lemma same_entries_wf:
  assumes "same_entries m m'" shows "wf_model m' = wf_model m"
proof -
  have *: "(\<forall>w \<in> set (words x). \<forall>p \<in> set (next_words w). p < k) \<longleftrightarrow>
        (\<forall>i < n_w x. \<forall>p \<in> set (next_words (words x ! i)). p < k)" for x k
    unfolding n_w_def by (metis in_set_conv_nth)
  show ?thesis
    unfolding wf_model_def *
    using assms same_entries_fields(4) [OF assms] by (simp add: same_entries_def)
qed

lemma wf_next_word:
  "wf_model m \<Longrightarrow> p < n_w m \<Longrightarrow> i < n_nw (words m ! p) \<Longrightarrow> next_words (words m ! p) ! i < n_w m"
  unfolding wf_model_def n_w_def n_nw_def by (meson nth_mem)

lemma tested_set_tested:
  "p < n_w (st_model st) \<Longrightarrow> tested (words (st_model (set_tested st p t)) ! p) = t"
  "q \<noteq> p \<Longrightarrow> words (st_model (set_tested st p t)) ! q = words (st_model st) ! q"
  by (simp_all add: set_tested_def n_w_def)

lemma chain_from_step:
  assumes "chain_from m s (Suc cur) len" "s ! Suc cur \<in> set (next_words (words m ! (s ! cur)))"
  shows "chain_from m s cur len"
  unfolding chain_from_def
proof (intro conjI allI impI)
  fix i assume "cur \<le> i \<and> Suc i < len"
  then show "s ! Suc i \<in> set (next_words (words m ! (s ! i)))"
    using assms by (cases "i = cur") (auto simp: chain_from_def)
next
  show "is_sentence_ender (words m ! (s ! (len - 1)))"
    using assms(1) by (simp add: chain_from_def)
qed

lemma take_Suc_nth: "take (Suc n) xs = take (Suc n) ys \<Longrightarrow> j \<le> n \<Longrightarrow> xs ! j = ys ! j"
  by (metis le_imp_less_Suc nth_take)

lemma take_Suc_shrink: "take (Suc (Suc n)) xs = take (Suc (Suc n)) ys \<Longrightarrow> take (Suc n) xs = take (Suc n) ys"
proof -
  assume a: "take (Suc (Suc n)) xs = take (Suc (Suc n)) ys"
  have "take (Suc n) (take (Suc (Suc n)) xs) = take (Suc n) (take (Suc (Suc n)) ys)"
    by (simp only: a)
  then show ?thesis by (simp add: min_def)
qed

lemma chain_from_same_entries:
  "same_entries m m' \<Longrightarrow> chain_from m' s cur len = chain_from m s cur len"
  by (simp add: chain_from_def same_entries_fields)

lemma post_trans:
  assumes "post cur len a False b" "post cur len b found c"
  shows "post cur len a found c"
  using assms chain_from_same_entries [of "st_model a" "st_model b"]
  by (auto simp: post_def intro: same_entries_trans)

lemma post_refl: "post cur len st False st"
  by (simp add: post_def)

lemma pre_post:
  assumes "pre cur len a" "post cur len a f b"
  shows "pre cur len b"
  using assms by (simp add: pre_def post_def)

lemma search_post:
  "(\<forall>cur st found st'.
      find_words_recursive rand fuel len cur st = Value (found, st') \<longrightarrow> pre cur len st \<longrightarrow>
      post cur len st found st') \<and>
   (\<forall>cur st found st'.
      find_words_recursive_loop rand fuel len cur (st_sentence st ! cur) st = Value (found, st') \<longrightarrow>
      pre cur len st \<longrightarrow> Suc cur < len \<longrightarrow> post cur len st found st')"
proof (induction fuel)
  case 0
  show ?case by simp
next
  case (Suc fuel)
  have rec: "post cur len st found st'"
    if "find_words_recursive rand fuel len cur st = Value (found, st')" "pre cur len st"
    for cur st found st'
    using Suc that by blast
  have loop: "post cur len st found st'"
    if "find_words_recursive_loop rand fuel len cur (st_sentence st ! cur) st = Value (found, st')"
       "pre cur len st" "Suc cur < len"
    for cur st found st'
    using Suc that by blast
  have A: "post cur len st found st'"
    if run: "find_words_recursive rand (Suc fuel) len cur st = Value (found, st')"
      and pre: "pre cur len st"
    for cur st found st'
  proof (cases "len = Suc cur")
    case True
    then show ?thesis
      using run by (auto simp: find_words_recursive_Suc post_def chain_from_def)
  next
    case False
    define this where "this = st_sentence st ! cur"
    define st1 where "st1 = set_tested st this
        (clear_flags (tested (words (st_model st) ! this)) (n_nw (words (st_model st) ! this)))"
    have run1: "find_words_recursive_loop rand fuel len cur (st_sentence st1 ! cur) st1 = Value (found, st')"
      using run False by (simp add: find_words_recursive_Suc st1_def this_def)
    have p0: "post cur len st False st1"
      by (simp add: post_def st1_def)
    have "Suc cur < len" using False pre by (auto simp: pre_def)
    from loop [OF run1 pre_post [OF pre p0] this] have "post cur len st1 found st'" .
    with p0 show ?thesis by (rule post_trans)
  qed
  have B: "post cur len st found st'"
    if run: "find_words_recursive_loop rand (Suc fuel) len cur (st_sentence st ! cur) st = Value (found, st')"
      and pre: "pre cur len st" and lt: "Suc cur < len"
    for cur st found st'
  proof -
    define this where "this = st_sentence st ! cur"
    define w where "w = words (st_model st) ! this"
    define i where "i = rand (st_rand_calls st) mod n_nw w"
    define st1 where "st1 = st\<lparr>st_rand_calls := Suc (st_rand_calls st)\<rparr>"
    define st3 where "st3 = (set_tested st1 this ((tested w)(i := True)))
                         \<lparr>st_sentence := (st_sentence st)[Suc cur := next_words w ! i]\<rparr>"
    have p1: "post cur len st False st1"
      by (simp add: post_def st1_def)
    show ?thesis
    proof (cases "\<exists>j<n_nw w. \<not> tested w j")
      case False
      then have "found = False" "st' = st"
        using run find_words_recursive_loop_exit [of w st this rand fuel len cur]
        by (simp_all add: this_def w_def)
      then show ?thesis by (simp add: post_refl)
    next
      case nall: True
      then have pos: "0 < n_nw w" by auto
      then have ilt: "i < n_nw w" by (simp add: i_def)
      show ?thesis
      proof (cases "tested w i")
        case True
        then have "find_words_recursive_loop rand fuel len cur (st_sentence st1 ! cur) st1 = Value (found, st')"
          using run find_words_recursive_loop_skip [of w st this rand fuel len cur] nall
          by (simp add: this_def w_def i_def st1_def)
        from loop [OF this pre_post [OF pre p1] lt] have "post cur len st1 found st'" .
        with p1 show ?thesis by (rule post_trans)
      next
        case False
        have p3: "post cur len st False st3"
          by (simp add: post_def st3_def st1_def set_tested_def same_entries_def static_update n_w_def)
        have pre3: "pre (Suc cur) len st3"
          using pre_post [OF pre p3] lt by (simp add: pre_def)
        obtain f st4 where r: "find_words_recursive rand fuel len (Suc cur) st3 = Value (f, st4)"
          and rest: "if f then found \<and> st' = st4
              else find_words_recursive_loop rand fuel len cur this st4 = Value (found, st')"
          using run find_words_recursive_loop_try [of w st this i rand fuel len cur] nall False
          by (auto simp: this_def w_def i_def st1_def st3_def split: outcome.splits if_splits)
        from rec [OF r pre3] have p4: "post (Suc cur) len st3 f st4" .
        then have p4': "post cur len st3 False st4"
          using take_Suc_shrink [of cur "st_sentence st4" "st_sentence st3"]
          by (simp add: post_def)
        have p34: "post cur len st False st4"
          using p3 p4' by (rule post_trans)
        have this4: "st_sentence st4 ! cur = this"
          using p34 take_Suc_nth [of cur "st_sentence st4" "st_sentence st" cur]
          by (simp add: post_def this_def)
        show ?thesis
        proof (cases f)
          case True
          then have fs: "found" "st' = st4" using rest by simp_all
          have "chain_from (st_model st3) (st_sentence st4) (Suc cur) len"
            using p4 True by (simp add: post_def)
          then have c: "chain_from (st_model st) (st_sentence st4) (Suc cur) len"
            using p3 chain_from_same_entries [of "st_model st" "st_model st3"]
            by (simp add: post_def)
          have "st_sentence st4 ! Suc cur = st_sentence st3 ! Suc cur"
            using p4 take_Suc_nth [of "Suc cur" "st_sentence st4" "st_sentence st3" "Suc cur"]
            by (simp add: post_def)
          also have "\<dots> = next_words w ! i"
            using pre lt by (simp add: st3_def pre_def)
          finally have "st_sentence st4 ! Suc cur \<in> set (next_words (words (st_model st) ! (st_sentence st4 ! cur)))"
            using ilt by (simp add: this4 w_def n_nw_def)
          with c have "chain_from (st_model st) (st_sentence st4) cur len"
            by (rule chain_from_step)
          then show ?thesis using p34 fs by (simp add: post_def)
        next
          case False
          then have "find_words_recursive_loop rand fuel len cur (st_sentence st4 ! cur) st4 = Value (found, st')"
            using rest this4 by simp
          from loop [OF this pre_post [OF pre p34] lt] have "post cur len st4 found st'" .
          with p34 show ?thesis by (rule post_trans)
        qed
      qed
    qed
  qed
  show ?case using A B by blast
qed

lemmas find_words_recursive_post = search_post [THEN conjunct1, rule_format]

lemma find_words_loop_post:
  assumes "find_words_loop rand fuel len ssw_checked st = Value (found, st')"
    and "0 < len" "length (st_sentence st) = len"
  shows "same_entries (st_model st) (st_model st') \<and> st_rand_calls st \<le> st_rand_calls st' \<and>
         length (st_sentence st') = len \<and>
         (found \<longrightarrow> valid_chain (st_model st) (st_sentence st') len)"
  using assms
proof (induction fuel arbitrary: ssw_checked st)
  case 0
  then show ?case by simp
next
  case (Suc fuel)
  define n where "n = n_ssw (st_model st)"
  define i where "i = rand (st_rand_calls st) mod n"
  define st1 where "st1 = st\<lparr>st_rand_calls := Suc (st_rand_calls st)\<rparr>"
  define st2 where "st2 = st\<lparr>st_rand_calls := Suc (st_rand_calls st),
      st_sentence := (st_sentence st)[0 := sentence_starting_words (st_model st) ! i]\<rparr>"
  note run = Suc.prems(1)
  show ?case
  proof (cases "\<exists>j<n. \<not> ssw_checked j")
    case False
    then have "found = False" "st' = st"
      using run find_words_loop_exit [of st ssw_checked rand fuel len] by (simp_all add: n_def)
    then show ?thesis using Suc.prems by simp
  next
    case nall: True
    then have ilt: "i < n" by (auto simp: i_def)
    show ?thesis
    proof (cases "ssw_checked i")
      case True
      then have "find_words_loop rand fuel len ssw_checked st1 = Value (found, st')"
        using run find_words_loop_skip [of st ssw_checked rand fuel len] nall
        by (simp add: n_def i_def st1_def)
      from Suc.IH [OF this] Suc.prems show ?thesis by (simp add: st1_def)
    next
      case False
      obtain f st3 where r: "find_words_recursive rand fuel len 0 st2 = Value (f, st3)"
        and rest: "if f then found \<and> st' = st3
            else find_words_loop rand fuel len (ssw_checked(i := True)) st3 = Value (found, st')"
        using run find_words_loop_try [of i rand st ssw_checked fuel len] nall False
        by (auto simp: n_def i_def st2_def split: outcome.splits if_splits)
      have "pre 0 len st2" using Suc.prems by (simp add: pre_def st2_def)
      from find_words_recursive_post [OF r this] have p: "post 0 len st2 f st3" .
      have se: "same_entries (st_model st) (st_model st3)"
        and calls: "st_rand_calls st \<le> st_rand_calls st3"
        and len3: "length (st_sentence st3) = len"
        using p Suc.prems by (simp_all add: post_def st2_def)
      show ?thesis
      proof (cases f)
        case True
        then have fs: "found" "st' = st3" using rest by simp_all
        have "st_sentence st3 ! 0 = st_sentence st2 ! 0"
          using p take_Suc_nth [of 0 "st_sentence st3" "st_sentence st2" 0] by (simp add: post_def)
        also have "\<dots> = sentence_starting_words (st_model st) ! i"
          using Suc.prems by (simp add: st2_def)
        finally have "st_sentence st3 ! 0 \<in> set (sentence_starting_words (st_model st))"
          using ilt by (simp add: n_def n_ssw_def)
        moreover have "chain_from (st_model st) (st_sentence st3) 0 len"
          using p True by (simp add: post_def st2_def)
        ultimately have "valid_chain (st_model st) (st_sentence st3) len"
          using len3 by (simp add: valid_chain_def chain_from_def)
        then show ?thesis using se calls len3 fs by simp
      next
        case False
        then have "find_words_loop rand fuel len (ssw_checked(i := True)) st3 = Value (found, st')"
          using rest by simp
        from Suc.IH [OF this \<open>0 < len\<close> len3]
        have "same_entries (st_model st3) (st_model st')" "st_rand_calls st3 \<le> st_rand_calls st'"
          "length (st_sentence st') = len"
          "found \<longrightarrow> valid_chain (st_model st3) (st_sentence st') len"
          by simp_all
        moreover have "valid_chain (st_model st3) s len = valid_chain (st_model st) s len" for s
          using se same_entries_fields(3,4) [OF se]
          by (simp add: valid_chain_def same_entries_def)
        ultimately show ?thesis
          using se calls by (auto intro: same_entries_trans)
      qed
    qed
  qed
qed

lemma find_words_post:
  assumes "find_words rand fuel len st = Value (found, st')"
    and "0 < len" "length (st_sentence st) = len"
  shows "same_entries (st_model st) (st_model st') \<and> st_rand_calls st \<le> st_rand_calls st' \<and>
         length (st_sentence st') = len \<and>
         (found \<longrightarrow> valid_chain (st_model st) (st_sentence st') len)"
  using assms find_words_loop_post unfolding find_words_def by blast

section \<open>Evaluating runs\<close>

lemma find_words_loop_numeral:
  "find_words_loop rand (numeral k) len c st = find_words_loop rand (Suc (pred_numeral k)) len c st"
  by (simp add: numeral_eq_Suc)

lemma find_words_recursive_numeral:
  "find_words_recursive rand (numeral k) len c st = find_words_recursive rand (Suc (pred_numeral k)) len c st"
  by (simp add: numeral_eq_Suc)

lemma find_words_recursive_loop_numeral:
  "find_words_recursive_loop rand (numeral k) len c t st = find_words_recursive_loop rand (Suc (pred_numeral k)) len c t st"
  by (simp add: numeral_eq_Suc)

lemmas search_eval =
  find_words_loop_numeral [unfolded find_words_loop_Suc]
  find_words_recursive_numeral [unfolded find_words_recursive_Suc]
  find_words_recursive_loop_numeral [unfolded find_words_recursive_loop_Suc]
  find_words_loop_Suc find_words_recursive_Suc find_words_recursive_loop_Suc
  find_words_def clear_flags_apply n_ssw_def n_nw_def Let_def set_tested_def

lemma replicate_numeral_unfold: "replicate (numeral k) x = x # replicate (pred_numeral k) x"
  by (simp add: numeral_eq_Suc)

lemma combine_words_loop_step:
  "i < len \<Longrightarrow> combine_words_loop sentence len i sentence_string =
     combine_words_loop sentence len (Suc i)
       (sentence_string @ string (sentence ! i) @ (if i = len - 1 then ''.'' else '' ''))"
  by (subst combine_words_loop.simps) (simp add: Let_def)

lemma combine_words_loop_done:
  "\<not> i < len \<Longrightarrow> combine_words_loop sentence len i sentence_string = sentence_string"
  by (subst combine_words_loop.simps) simp

lemmas format_eval = combine_words_def combine_words_loop_step combine_words_loop_done
  toupper_def upper_case_def lower_case_def

lemma generate_sentence_Value:
  assumes "generate_sentence rand fuel model calls len = Value (r, st')"
  shows "0 < len \<and>
     find_words rand fuel (nat len)
        \<lparr>st_model = model, st_sentence = replicate (nat len) 0, st_rand_calls = calls\<rparr>
       = Value (r \<noteq> None, st') \<and>
     (r \<noteq> None \<longrightarrow> r = Some (combine_words
              (map (\<lambda>p. words (st_model st') ! p) (st_sentence st')) (nat len)))"
proof -
  define st where
    "st = \<lparr>st_model = model, st_sentence = replicate (nat len) 0, st_rand_calls = calls\<rparr>"
  have pos: "0 < len"
    using assms by (cases "len \<le> 0") (simp_all add: generate_sentence_def)
  then have eq: "generate_sentence rand fuel model calls len =
      (case find_words rand fuel (nat len) st of
         OutOfFuel \<Rightarrow> OutOfFuel
       | Fault f \<Rightarrow> Fault f
       | Value (found, st1) \<Rightarrow>
           if found
           then Value (Some (combine_words
                  (map (\<lambda>p. words (st_model st1) ! p) (st_sentence st1)) (nat len)), st1)
           else Value (None, st1))"
    by (simp add: generate_sentence_def st_def)
  show ?thesis
  proof (cases "find_words rand fuel (nat len) st")
    case OutOfFuel
    then show ?thesis using assms eq by simp
  next
    case (Fault f)
    then show ?thesis using assms eq by simp
  next
    case (Value p)
    obtain found st1 where p: "p = (found, st1)" by (cases p)
    show ?thesis
      using assms eq Value p pos by (cases found) (auto simp: st_def)
  qed
qed

lemma example_run:
  "\<exists>st'. generate_sentence id 5 example_model 0 2 = Value (Some ''A b.'', st') \<and>
         tested (words (st_model st') ! 0) 0"
proof -
  have "case generate_sentence id 5 example_model 0 2 of
          Value (r, st') \<Rightarrow> r = Some ''A b.'' \<and> tested (words (st_model st') ! 0) 0
        | _ \<Rightarrow> False"
    by (simp add: generate_sentence_def example_model_def search_eval replicate_numeral_unfold
          format_eval)
  then show ?thesis by (auto split: outcome.splits)
qed

text \<open>
  C4. Whenever \<^verbatim>\<open>generate_sentence\<close> returns a sentence, the words it found are a valid
  chain of the requested length: exactly \<open>len\<close> words, the first one a sentence starter,
  every next one among the successors of the one before, the last one a sentence ender.
\<close>

theorem generate_sentence_chain:
  assumes "generate_sentence rand fuel model calls len = Value (Some s, st')"
  shows "valid_chain model (st_sentence st') (nat len)"
proof -
  define st where "st = \<lparr>st_model = model, st_sentence = replicate (nat len) 0, st_rand_calls = calls\<rparr>"
  from generate_sentence_Value [OF assms]
  have pos: "0 < len" and run: "find_words rand fuel (nat len) st = Value (True, st')"
    unfolding st_def by simp_all
  have "0 < nat len" "length (st_sentence st) = nat len"
    using pos by (simp_all add: st_def)
  from find_words_post [OF run this] show ?thesis
    by (simp add: st_def)
qed

theorem generate_sentence_chain_witness:
  "\<exists>st'. generate_sentence id 5 example_model 0 2 = Value (Some ''A b.'', st') \<and>
         valid_chain example_model (st_sentence st') (nat 2)"
proof -
  obtain st' where run: "generate_sentence id 5 example_model 0 2 = Value (Some ''A b.'', st')"
    using example_run by blast
  from generate_sentence_chain [OF run] run show ?thesis by blast
qed

text \<open>
  C2, as amended. A call of \<^verbatim>\<open>generate_sentence\<close> that returns leaves the number of
  entries, the text, occurrence count, sentence-ending flag and successors of every entry, and
  the sentence starters as they were. (The \<^verbatim>\<open>tested\<close> arrays of the entries are part of
  the model and are overwritten.)
\<close>

theorem generate_sentence_frame:
  assumes "generate_sentence rand fuel model calls len = Value (r, st')"
  shows "n_w (st_model st') = n_w model \<and>
         (\<forall>i<n_w model.
            string (words (st_model st') ! i) = string (words model ! i) \<and>
            n_occurrences (words (st_model st') ! i) = n_occurrences (words model ! i) \<and>
            is_sentence_ender (words (st_model st') ! i) = is_sentence_ender (words model ! i) \<and>
            next_words (words (st_model st') ! i) = next_words (words model ! i)) \<and>
         sentence_starting_words (st_model st') = sentence_starting_words model"
proof -
  define st where "st = \<lparr>st_model = model, st_sentence = replicate (nat len) 0, st_rand_calls = calls\<rparr>"
  from generate_sentence_Value [OF assms]
  have pos: "0 < len" and run: "find_words rand fuel (nat len) st = Value (r \<noteq> None, st')"
    unfolding st_def by simp_all
  have "0 < nat len" "length (st_sentence st) = nat len"
    using pos by (simp_all add: st_def)
  from find_words_post [OF run this] have se: "same_entries model (st_model st')"
    by (simp add: st_def)
  show ?thesis
    using se same_entries_fields [OF se] by (simp add: same_entries_def)
qed

theorem generate_sentence_frame_witness:
  "\<exists>st'. generate_sentence id 5 example_model 0 2 = Value (Some ''A b.'', st') \<and>
     n_w (st_model st') = n_w example_model \<and>
     (\<forall>i<n_w example_model.
        string (words (st_model st') ! i) = string (words example_model ! i) \<and>
        n_occurrences (words (st_model st') ! i) = n_occurrences (words example_model ! i) \<and>
        is_sentence_ender (words (st_model st') ! i) = is_sentence_ender (words example_model ! i) \<and>
        next_words (words (st_model st') ! i) = next_words (words example_model ! i)) \<and>
     sentence_starting_words (st_model st') = sentence_starting_words example_model"
proof -
  obtain st' where run: "generate_sentence id 5 example_model 0 2 = Value (Some ''A b.'', st')"
    using example_run by blast
  from generate_sentence_frame [OF run] run show ?thesis by blast
qed

theorem generate_sentence_writes_model:
  "tested (words example_model ! 0) 0 = False \<and>
   tested_after (generate_sentence id 5 example_model 0 2) 0 0 = Some True"
proof -
  obtain st' where run: "generate_sentence id 5 example_model 0 2 = Value (Some ''A b.'', st')"
    and t: "tested (words (st_model st') ! 0) 0"
    using example_run by blast
  show ?thesis using t by (simp add: run tested_after_def) (simp add: example_model_def)
qed

section \<open>The search never draws from an empty range\<close>

lemma random_int_Fault_iff:
  "(\<exists>f. random_int rand calls lower_bound upper_bound = Fault f) \<longleftrightarrow> upper_bound < lower_bound"
proof (cases "upper_bound - lower_bound + 1 = 0")
  case True
  then show ?thesis by (auto simp: random_int_def)
next
  case nz: False
  show ?thesis
  proof (cases "upper_bound < lower_bound")
    case True
    define r where "r = int (rand calls) mod \<bar>upper_bound - lower_bound + 1\<bar>"
    have "0 \<le> r"
      using nz by (simp add: r_def)
    then have "\<not> r + lower_bound \<le> upper_bound" using True by simp
    then show ?thesis
      using True nz unfolding random_int_def Let_def r_def [symmetric] by simp
  next
    case False
    then have pos: "0 < upper_bound - lower_bound + 1" by simp
    define r where "r = int (rand calls) mod \<bar>upper_bound - lower_bound + 1\<bar>"
    have abs: "\<bar>upper_bound - lower_bound + 1\<bar> = upper_bound - lower_bound + 1"
      using pos by simp
    have "r < upper_bound - lower_bound + 1"
      unfolding r_def abs using pos by (rule pos_mod_bound)
    moreover have "0 \<le> r"
      unfolding r_def abs using pos by (rule pos_mod_sign)
    ultimately have "lower_bound \<le> r + lower_bound \<and> r + lower_bound \<le> upper_bound" by simp
    then show ?thesis
      using False nz unfolding random_int_def Let_def r_def [symmetric] by simp
  qed
qed

lemma search_no_fault:
  "(\<forall>cur st f. find_words_recursive rand fuel len cur st \<noteq> Fault f) \<and>
   (\<forall>cur this st f. find_words_recursive_loop rand fuel len cur this st \<noteq> Fault f)"
proof (induction fuel)
  case 0
  show ?case by simp
next
  case (Suc fuel)
  then have rec: "find_words_recursive rand fuel len cur st \<noteq> Fault f"
    and loop: "find_words_recursive_loop rand fuel len cur this st \<noteq> Fault f" for cur this st f
    by simp_all
  have A: "find_words_recursive rand (Suc fuel) len cur st \<noteq> Fault f" for cur st f
    using loop by (simp add: find_words_recursive_Suc)
  have B: "find_words_recursive_loop rand (Suc fuel) len cur this st \<noteq> Fault f" for cur this st f
    unfolding find_words_recursive_loop_Suc Let_def
    using rec loop by (simp split: outcome.splits)
  show ?case using A B by simp
qed

lemma find_words_loop_no_fault:
  "find_words_loop rand fuel len ssw_checked st \<noteq> Fault f"
proof (induction fuel arbitrary: ssw_checked st)
  case 0
  show ?case by simp
next
  case (Suc fuel)
  show ?case
    unfolding find_words_loop_Suc Let_def
    using Suc search_no_fault [of rand fuel len] by (simp split: outcome.splits)
qed


lemma find_words_no_starters:
  assumes "n_ssw (st_model st) = 0"
  shows "find_words rand (Suc fuel) len st = Value (False, st)"
  using assms by (simp add: find_words_def find_words_loop_exit)

lemma set_tested_same: "set_tested st p (tested (words (st_model st) ! p)) = st"
  by (simp add: set_tested_def)

lemma clear_flags_0: "clear_flags array 0 = array"
  by (simp add: clear_flags_def)

lemma find_words_recursive_no_successors:
  assumes "len \<noteq> Suc cur" "n_nw (words (st_model st) ! (st_sentence st ! cur)) = 0"
  shows "find_words_recursive rand (Suc (Suc fuel)) len cur st = Value (False, st)"
  using assms
  by (simp add: find_words_recursive_Suc clear_flags_0 set_tested_same
        find_words_recursive_loop_exit [where w = "words (st_model st) ! (st_sentence st ! cur)"])

text \<open>
  C9. \<^verbatim>\<open>random_int\<close> ends in a fault exactly when its range is empty, and no run of the
  search ends in a fault: the search never draws from an empty range. With no sentence starters
  \<^verbatim>\<open>generate_sentence\<close> returns the null pointer, and at a word without successors
  \<^verbatim>\<open>find_words_recursive\<close> returns false, both with the count of \<^verbatim>\<open>rand()\<close> calls (and
  the whole state) as it was.
\<close>

theorem search_never_draws_from_empty_range:
  "((\<exists>f. random_int rand calls lower_bound upper_bound = Fault f) \<longleftrightarrow> upper_bound < lower_bound) \<and>
   (\<forall>f. find_words rand fuel len st \<noteq> Fault f) \<and>
   (\<forall>f. find_words_recursive rand fuel len cur st \<noteq> Fault f) \<and>
   (n_ssw model = 0 \<and> 0 < n \<longrightarrow>
      generate_sentence rand (Suc fuel) model calls n =
        Value (None, \<lparr>st_model = model, st_sentence = replicate (nat n) 0, st_rand_calls = calls\<rparr>)) \<and>
   (len \<noteq> Suc cur \<and> n_nw (words (st_model st) ! (st_sentence st ! cur)) = 0 \<longrightarrow>
      find_words_recursive rand (Suc (Suc fuel)) len cur st = Value (False, st))"
proof (intro conjI allI impI)
  show "(\<exists>f. random_int rand calls lower_bound upper_bound = Fault f) \<longleftrightarrow> upper_bound < lower_bound"
    by (rule random_int_Fault_iff)
  show "find_words rand fuel len st \<noteq> Fault f" for f
    by (simp add: find_words_def find_words_loop_no_fault)
  show "find_words_recursive rand fuel len cur st \<noteq> Fault f" for f
    using search_no_fault [of rand fuel len] by simp
  show "generate_sentence rand (Suc fuel) model calls n =
        Value (None, \<lparr>st_model = model, st_sentence = replicate (nat n) 0, st_rand_calls = calls\<rparr>)"
    if "n_ssw model = 0 \<and> 0 < n"
    using that by (simp add: generate_sentence_def find_words_no_starters)
  show "find_words_recursive rand (Suc (Suc fuel)) len cur st = Value (False, st)"
    if "len \<noteq> Suc cur \<and> n_nw (words (st_model st) ! (st_sentence st ! cur)) = 0"
    using that by (simp add: find_words_recursive_no_successors)
qed

theorem search_never_draws_from_empty_range_witness:
  "n_ssw initialize_model = 0 \<and> (0::int) < 2 \<and>
   generate_sentence id (Suc 0) initialize_model 0 2 =
     Value (None, \<lparr>st_model = initialize_model, st_sentence = replicate (nat 2) 0, st_rand_calls = 0\<rparr>) \<and>
   (3::nat) \<noteq> Suc 1 \<and>
   n_nw (words example_model ! ([0, 1, 0] ! 1)) = 0 \<and>
   find_words_recursive id (Suc (Suc 0)) 3 1
      \<lparr>st_model = example_model, st_sentence = [0, 1, 0], st_rand_calls = 7\<rparr> =
     Value (False, \<lparr>st_model = example_model, st_sentence = [0, 1, 0], st_rand_calls = 7\<rparr>)"
proof -
  have h1: "n_ssw initialize_model = 0 \<and> (0::int) < 2"
    by (simp add: initialize_model_def n_ssw_def)
  have h2: "(3::nat) \<noteq> Suc 1 \<and>
      n_nw (words (st_model \<lparr>st_model = example_model, st_sentence = [0, 1, 0], st_rand_calls = 7\<rparr>) !
             (st_sentence \<lparr>st_model = example_model, st_sentence = [0, 1, 0], st_rand_calls = 7\<rparr> ! 1)) = 0"
    by (simp add: example_model_def n_nw_def)
  from search_never_draws_from_empty_range
    [where rand = id and calls = 0 and lower_bound = 0 and upper_bound = 0 and fuel = 0
       and len = 3 and cur = 1 and model = initialize_model and n = 2
       and st = "\<lparr>st_model = example_model, st_sentence = [0, 1, 0], st_rand_calls = 7\<rparr>"]
    h1 h2
  show ?thesis by simp
qed

section \<open>Fuel and termination\<close>

lemma search_mono_Suc:
  "(\<forall>cur st r. find_words_recursive rand fuel len cur st = Value r \<longrightarrow>
       find_words_recursive rand (Suc fuel) len cur st = Value r) \<and>
   (\<forall>cur this st r. find_words_recursive_loop rand fuel len cur this st = Value r \<longrightarrow>
       find_words_recursive_loop rand (Suc fuel) len cur this st = Value r)"
proof (induction fuel)
  case 0
  show ?case by simp
next
  case (Suc fuel)
  then have rec: "find_words_recursive rand (Suc fuel) len cur st = Value r"
    if "find_words_recursive rand fuel len cur st = Value r" for cur st r
    using that by blast
  from Suc have loop: "find_words_recursive_loop rand (Suc fuel) len cur this st = Value r"
    if "find_words_recursive_loop rand fuel len cur this st = Value r" for cur this st r
    using that by blast
  have A: "find_words_recursive rand (Suc (Suc fuel)) len cur st = Value r"
    if "find_words_recursive rand (Suc fuel) len cur st = Value r" for cur st r
    using that loop by (simp add: find_words_recursive_Suc split: if_splits)
  have B: "find_words_recursive_loop rand (Suc (Suc fuel)) len cur this st = Value r"
    if run: "find_words_recursive_loop rand (Suc fuel) len cur this st = Value r" for cur this st r
  proof -
    define w where "w = words (st_model st) ! this"
    define i where "i = rand (st_rand_calls st) mod n_nw w"
    show ?thesis
    proof (cases "\<exists>j<n_nw w. \<not> tested w j")
      case False
      then show ?thesis
        using run find_words_recursive_loop_exit [of w st this rand _ len cur]
        by (simp add: w_def)
    next
      case nall: True
      show ?thesis
      proof (cases "tested w i")
        case True
        then show ?thesis
          using run nall loop find_words_recursive_loop_skip [of w st this rand _ len cur]
          by (simp add: w_def i_def)
      next
        case False
        note unf = find_words_recursive_loop_try [of w st this i rand _ len cur, OF w_def i_def nall False]
        define st3 where "st3 = (set_tested (st\<lparr>st_rand_calls := Suc (st_rand_calls st)\<rparr>) this
                     ((tested w)(i := True)))
                    \<lparr>st_sentence := (st_sentence st)[Suc cur := next_words w ! i]\<rparr>"
        obtain f st4 where r: "find_words_recursive rand fuel len (Suc cur) st3 = Value (f, st4)"
          and rest: "if f then r = (True, st4)
              else find_words_recursive_loop rand fuel len cur this st4 = Value r"
          using run unfolding unf st3_def [symmetric]
          by (auto split: outcome.splits if_splits)
        have r': "find_words_recursive rand (Suc fuel) len (Suc cur) st3 = Value (f, st4)"
          using r by (rule rec)
        show ?thesis
        proof (cases f)
          case True
          then show ?thesis using rest r' unfolding unf st3_def [symmetric] by simp
        next
          case False
          then have "find_words_recursive_loop rand (Suc fuel) len cur this st4 = Value r"
            using rest loop by simp
          then show ?thesis using False r' unfolding unf st3_def [symmetric] by simp
        qed
      qed
    qed
  qed
  show ?case using A B by blast
qed

lemma find_words_recursive_mono:
  assumes "find_words_recursive rand fuel len cur st = Value r" "fuel \<le> fuel'"
  shows "find_words_recursive rand fuel' len cur st = Value r"
  using assms(2,1)
  by (induction rule: dec_induct) (simp_all add: search_mono_Suc [THEN conjunct1, rule_format])

lemma find_words_recursive_loop_mono:
  assumes "find_words_recursive_loop rand fuel len cur this st = Value r" "fuel \<le> fuel'"
  shows "find_words_recursive_loop rand fuel' len cur this st = Value r"
  using assms(2,1)
  by (induction rule: dec_induct) (simp_all add: search_mono_Suc [THEN conjunct2, rule_format])

lemma markers_kept_trans:
  assumes "same_entries b c" "markers_kept a b p" "markers_kept b c p"
  shows "markers_kept a c p"
proof (cases "exhausted c p")
  case True
  then show ?thesis by (simp add: markers_kept_def)
next
  case False
  then have bc: "tested (words c ! p) = tested (words b ! p)"
    using assms(3) by (simp add: markers_kept_def)
  have n: "n_nw (words c ! p) = n_nw (words b ! p)"
    using assms(1) by (rule same_entries_fields)
  have "\<not> exhausted b p"
    using False bc n by (simp add: exhausted_def)
  then have "tested (words b ! p) = tested (words a ! p)"
    using assms(2) by (simp add: markers_kept_def)
  then show ?thesis using bc by (simp add: markers_kept_def)
qed

lemma markers_kept_refl: "markers_kept m m p"
  by (simp add: markers_kept_def)

lemma post_same_entries: "post cur len st f st' \<Longrightarrow> same_entries (st_model st) (st_model st')"
  by (simp add: post_def)

lemmas find_words_recursive_loop_post = search_post [THEN conjunct2, rule_format]

lemma search_markers:
  "(\<forall>cur st st'. find_words_recursive rand fuel len cur st = Value (False, st') \<longrightarrow>
       pre cur len st \<longrightarrow> (\<forall>p<n_w (st_model st). markers_kept (st_model st) (st_model st') p)) \<and>
   (\<forall>cur st st'.
       find_words_recursive_loop rand fuel len cur (st_sentence st ! cur) st = Value (False, st') \<longrightarrow>
       pre cur len st \<longrightarrow> Suc cur < len \<longrightarrow>
       exhausted (st_model st') (st_sentence st ! cur) \<and>
       (\<forall>p<n_w (st_model st). markers_kept (st_model st) (st_model st') p))"
proof (induction fuel)
  case 0
  show ?case by simp
next
  case (Suc fuel)
  then have rec: "markers_kept (st_model st) (st_model st') p"
    if "find_words_recursive rand fuel len cur st = Value (False, st')" "pre cur len st"
       "p < n_w (st_model st)"
    for cur st st' p
    using that by blast
  from Suc have loop: "exhausted (st_model st') (st_sentence st ! cur) \<and>
       (\<forall>p<n_w (st_model st). markers_kept (st_model st) (st_model st') p)"
    if "find_words_recursive_loop rand fuel len cur (st_sentence st ! cur) st = Value (False, st')"
       "pre cur len st" "Suc cur < len"
    for cur st st'
    using that by blast
  have A: "markers_kept (st_model st) (st_model st') p"
    if run: "find_words_recursive rand (Suc fuel) len cur st = Value (False, st')"
      and pre: "pre cur len st" and p: "p < n_w (st_model st)"
    for cur st st' p
  proof (cases "len = Suc cur")
    case True
    then show ?thesis
      using run by (auto simp: find_words_recursive_Suc markers_kept_refl)
  next
    case False
    define this where "this = st_sentence st ! cur"
    define st1 where "st1 = set_tested st this
        (clear_flags (tested (words (st_model st) ! this)) (n_nw (words (st_model st) ! this)))"
    have run1: "find_words_recursive_loop rand fuel len cur (st_sentence st1 ! cur) st1 = Value (False, st')"
      using run False by (simp add: find_words_recursive_Suc st1_def this_def)
    have pre1: "pre cur len st1" using pre by (simp add: pre_def st1_def)
    have lt: "Suc cur < len" using False pre by (auto simp: pre_def)
    from loop [OF run1 pre1 lt]
    have ex: "exhausted (st_model st') this"
      and oth: "\<forall>p<n_w (st_model st1). markers_kept (st_model st1) (st_model st') p"
      by (simp_all add: st1_def this_def)
    show ?thesis
    proof (cases "p = this")
      case True
      then show ?thesis using ex by (simp add: markers_kept_def)
    next
      case False
      then have "words (st_model st1) ! p = words (st_model st) ! p"
        by (simp add: st1_def tested_set_tested)
      moreover have "markers_kept (st_model st1) (st_model st') p"
        using oth p by (simp add: st1_def)
      ultimately show ?thesis by (simp add: markers_kept_def)
    qed
  qed
  have B: "exhausted (st_model st') (st_sentence st ! cur) \<and>
       (\<forall>p<n_w (st_model st). markers_kept (st_model st) (st_model st') p)"
    if run: "find_words_recursive_loop rand (Suc fuel) len cur (st_sentence st ! cur) st = Value (False, st')"
      and pre: "pre cur len st" and lt: "Suc cur < len"
    for cur st st'
  proof -
    define this where "this = st_sentence st ! cur"
    define w where "w = words (st_model st) ! this"
    define i where "i = rand (st_rand_calls st) mod n_nw w"
    define st1 where "st1 = st\<lparr>st_rand_calls := Suc (st_rand_calls st)\<rparr>"
    define st3 where "st3 = (set_tested st1 this ((tested w)(i := True)))
                         \<lparr>st_sentence := (st_sentence st)[Suc cur := next_words w ! i]\<rparr>"
    show ?thesis
    proof (cases "\<exists>j<n_nw w. \<not> tested w j")
      case False
      then have "st' = st"
        using run find_words_recursive_loop_exit [of w st this rand fuel len cur]
        by (simp_all add: this_def w_def)
      then show ?thesis
        using False by (simp add: markers_kept_refl exhausted_def w_def this_def)
    next
      case nall: True
      show ?thesis
      proof (cases "tested w i")
        case True
        then have "find_words_recursive_loop rand fuel len cur (st_sentence st1 ! cur) st1 = Value (False, st')"
          using run find_words_recursive_loop_skip [of w st this rand fuel len cur] nall
          by (simp add: this_def w_def i_def st1_def)
        moreover have "pre cur len st1" using pre by (simp add: pre_def st1_def)
        ultimately show ?thesis using loop [of cur st1 st'] lt by (simp add: st1_def)
      next
        case False
        have p3: "post cur len st False st3"
          by (simp add: post_def st3_def st1_def set_tested_def same_entries_def static_update n_w_def)
        have pre3: "pre (Suc cur) len st3"
          using pre_post [OF pre p3] lt by (simp add: pre_def)
        obtain f st4 where r: "find_words_recursive rand fuel len (Suc cur) st3 = Value (f, st4)"
          and rest: "if f then False
              else find_words_recursive_loop rand fuel len cur this st4 = Value (False, st')"
          using run find_words_recursive_loop_try [of w st this i rand fuel len cur] nall False
          by (auto simp: this_def w_def i_def st1_def st3_def split: outcome.splits if_splits)
        have nf: "\<not> f" using rest by (cases f) simp_all
        from find_words_recursive_post [OF r pre3] have p4: "post (Suc cur) len st3 f st4" .
        then have p4': "post cur len st3 False st4"
          using take_Suc_shrink [of cur "st_sentence st4" "st_sentence st3"]
          by (simp add: post_def)
        have p34: "post cur len st False st4"
          using p3 p4' by (rule post_trans)
        have this4: "st_sentence st4 ! cur = this"
          using p34 take_Suc_nth [of cur "st_sentence st4" "st_sentence st" cur]
          by (simp add: post_def this_def)
        have pre4: "pre cur len st4" using pre p34 by (rule pre_post)
        have run4: "find_words_recursive_loop rand fuel len cur (st_sentence st4 ! cur) st4 = Value (False, st')"
          using rest nf this4 by simp
        from find_words_recursive_loop_post [OF run4 pre4 lt]
        have se4: "same_entries (st_model st4) (st_model st')" by (rule post_same_entries)
        have nw3: "n_w (st_model st3) = n_w (st_model st)" "n_w (st_model st4) = n_w (st_model st)"
          using p3 p34 by (simp_all add: post_def same_entries_def)
        from loop [OF run4 pre4 lt]
        have ex: "exhausted (st_model st') this"
          and k4: "\<And>p. p < n_w (st_model st) \<Longrightarrow> markers_kept (st_model st4) (st_model st') p"
          by (simp_all add: this4 nw3)
        have k: "markers_kept (st_model st) (st_model st') p" if p: "p < n_w (st_model st)" for p
        proof (cases "p = this")
          case True
          then show ?thesis using ex by (simp add: markers_kept_def)
        next
          case False
          then have "words (st_model st3) ! p = words (st_model st) ! p"
            by (simp add: st3_def st1_def set_tested_def)
          moreover have "markers_kept (st_model st3) (st_model st4) p"
            using rec [OF _ pre3, of st4 p] r nf p nw3 by simp
          ultimately have "markers_kept (st_model st) (st_model st4) p"
            by (simp add: markers_kept_def)
          with se4 show ?thesis using k4 [OF p] by (rule markers_kept_trans)
        qed
        show ?thesis using ex k by (simp add: this_def)
      qed
    qed
  qed
  show ?case using A B by blast
qed

lemma first_untested:
  fixes rand :: "nat \<Rightarrow> nat" and n c :: nat
  assumes fair: "\<forall>i<n. \<forall>k. \<exists>j\<ge>k. rand j mod n = i" and some: "\<exists>j<n. \<not> t j"
  shows "\<exists>d. (\<forall>k<d. t (rand (c + k) mod n)) \<and> \<not> t (rand (c + d) mod n)"
proof -
  obtain i where i: "i < n" "\<not> t i" using some by blast
  obtain j where j: "c \<le> j" "rand j mod n = i" using fair i(1) by blast
  have "\<not> t (rand (c + (j - c)) mod n)" using i j by simp
  then have ex: "\<exists>d. \<not> t (rand (c + d) mod n)" by blast
  define d where "d = (LEAST d. \<not> t (rand (c + d) mod n))"
  have "\<not> t (rand (c + d) mod n)"
    unfolding d_def using ex by (rule LeastI_ex)
  moreover have "t (rand (c + k) mod n)" if "k < d" for k
    using that not_less_Least [of k "\<lambda>d. \<not> t (rand (c + d) mod n)"] by (simp add: d_def)
  ultimately show ?thesis by blast
qed

lemma find_words_recursive_loop_skips:
  assumes "w = words (st_model st) ! this" "\<exists>j<n_nw w. \<not> tested w j"
    and "\<forall>k<d. tested w (rand (st_rand_calls st + k) mod n_nw w)"
  shows "find_words_recursive_loop rand (d + fuel) len cur this st =
         find_words_recursive_loop rand fuel len cur this (st\<lparr>st_rand_calls := st_rand_calls st + d\<rparr>)"
  using assms
proof (induction d arbitrary: st)
  case 0
  then show ?case by simp
next
  case (Suc d)
  define st1 where "st1 = st\<lparr>st_rand_calls := Suc (st_rand_calls st)\<rparr>"
  have "tested w (rand (st_rand_calls st) mod n_nw w)"
    using Suc.prems(3) [rule_format, of 0] by simp
  then have "find_words_recursive_loop rand (Suc d + fuel) len cur this st =
      find_words_recursive_loop rand (d + fuel) len cur this st1"
    using find_words_recursive_loop_skip [OF Suc.prems(1,2), of rand "d + fuel" len cur]
    by (simp add: st1_def)
  also have "\<dots> = find_words_recursive_loop rand fuel len cur this
      (st1\<lparr>st_rand_calls := st_rand_calls st1 + d\<rparr>)"
  proof (rule Suc.IH)
    show "w = words (st_model st1) ! this" using Suc.prems(1) by (simp add: st1_def)
    show "\<exists>j<n_nw w. \<not> tested w j" by (rule Suc.prems(2))
    show "\<forall>k<d. tested w (rand (st_rand_calls st1 + k) mod n_nw w)"
      using Suc.prems(3) [rule_format, of "Suc k" for k] by (simp add: st1_def)
  qed
  finally show ?case by (simp add: st1_def)
qed

lemma find_words_loop_skips:
  assumes "\<exists>j<n_ssw (st_model st). \<not> ssw_checked j"
    and "\<forall>k<d. ssw_checked (rand (st_rand_calls st + k) mod n_ssw (st_model st))"
  shows "find_words_loop rand (d + fuel) len ssw_checked st =
         find_words_loop rand fuel len ssw_checked (st\<lparr>st_rand_calls := st_rand_calls st + d\<rparr>)"
  using assms
proof (induction d arbitrary: st)
  case 0
  then show ?case by simp
next
  case (Suc d)
  define st1 where "st1 = st\<lparr>st_rand_calls := Suc (st_rand_calls st)\<rparr>"
  have "ssw_checked (rand (st_rand_calls st) mod n_ssw (st_model st))"
    using Suc.prems(2) [rule_format, of 0] by simp
  then have "find_words_loop rand (Suc d + fuel) len ssw_checked st =
      find_words_loop rand (d + fuel) len ssw_checked st1"
    using find_words_loop_skip [OF Suc.prems(1), of rand "d + fuel" len]
    by (simp add: st1_def)
  also have "\<dots> = find_words_loop rand fuel len ssw_checked
      (st1\<lparr>st_rand_calls := st_rand_calls st1 + d\<rparr>)"
  proof (rule Suc.IH)
    show "\<exists>j<n_ssw (st_model st1). \<not> ssw_checked j" using Suc.prems(1) by (simp add: st1_def)
    show "\<forall>k<d. ssw_checked (rand (st_rand_calls st1 + k) mod n_ssw (st_model st1))"
      using Suc.prems(2) [rule_format, of "Suc k" for k] by (simp add: st1_def)
  qed
  finally show ?case by (simp add: st1_def)
qed

lemma find_words_loop_mono_Suc:
  "find_words_loop rand fuel len ssw_checked st = Value r \<Longrightarrow>
   find_words_loop rand (Suc fuel) len ssw_checked st = Value r"
proof (induction fuel arbitrary: ssw_checked st)
  case 0
  then show ?case by simp
next
  case (Suc fuel)
  define i where "i = rand (st_rand_calls st) mod n_ssw (st_model st)"
  note run = Suc.prems
  show ?case
  proof (cases "\<exists>j<n_ssw (st_model st). \<not> ssw_checked j")
    case False
    then show ?thesis
      using run find_words_loop_exit [of st ssw_checked rand _ len] by simp
  next
    case nall: True
    show ?thesis
    proof (cases "ssw_checked i")
      case True
      then show ?thesis
        using run nall Suc.IH find_words_loop_skip [of st ssw_checked rand _ len]
        by (simp add: i_def)
    next
      case False
      note unf = find_words_loop_try [of i rand st ssw_checked _ len, OF i_def nall False]
      define st2 where "st2 = st\<lparr>st_rand_calls := Suc (st_rand_calls st),
             st_sentence := (st_sentence st)[0 := sentence_starting_words (st_model st) ! i]\<rparr>"
      obtain f st3 where r: "find_words_recursive rand fuel len 0 st2 = Value (f, st3)"
        and rest: "if f then r = (True, st3)
            else find_words_loop rand fuel len (ssw_checked(i := True)) st3 = Value r"
        using run unfolding unf st2_def [symmetric]
        by (auto split: outcome.splits if_splits)
      have r': "find_words_recursive rand (Suc fuel) len 0 st2 = Value (f, st3)"
        using r by (rule find_words_recursive_mono) simp
      show ?thesis
      proof (cases f)
        case True
        then show ?thesis using rest r' unfolding unf st2_def [symmetric] by simp
      next
        case False
        then have "find_words_loop rand (Suc fuel) len (ssw_checked(i := True)) st3 = Value r"
          using rest Suc.IH by simp
        then show ?thesis using False r' unfolding unf st2_def [symmetric] by simp
      qed
    qed
  qed
qed

lemma find_words_loop_mono:
  assumes "find_words_loop rand fuel len ssw_checked st = Value r" "fuel \<le> fuel'"
  shows "find_words_loop rand fuel' len ssw_checked st = Value r"
  using assms(2,1)
  by (induction rule: dec_induct) (simp_all add: find_words_loop_mono_Suc)

lemma untested_card_less:
  fixes n :: nat
  assumes "i < n" "\<not> t i"
    and "(\<forall>j<n. t' j) \<or> t' = t(i := True)"
  shows "card {j. j < n \<and> \<not> t' j} < card {j. j < n \<and> \<not> t j}"
proof (rule psubset_card_mono)
  show "finite {j. j < n \<and> \<not> t j}" by simp
  have a: "\<not> t j \<and> j \<noteq> i" if "j < n" "\<not> t' j" for j
    using assms(3)
  proof
    assume "\<forall>j<n. t' j"
    then show ?thesis using that by simp
  next
    assume "t' = t(i := True)"
    then have "t' j = (if j = i then True else t j)" by simp
    then show ?thesis using that by (cases "j = i") simp_all
  qed
  have "{j. j < n \<and> \<not> t' j} \<subseteq> {j. j < n \<and> \<not> t j} - {i}"
    using a by blast
  moreover have "i \<in> {j. j < n \<and> \<not> t j}" using assms(1,2) by simp
  ultimately show "{j. j < n \<and> \<not> t' j} \<subset> {j. j < n \<and> \<not> t j}"
    by blast
qed

lemma ready_fair:
  assumes "fair_for rand m0" "ready m0 cur len st"
  shows "\<forall>i<n_nw (words (st_model st) ! (st_sentence st ! cur)). \<forall>k. \<exists>j\<ge>k.
           rand j mod n_nw (words (st_model st) ! (st_sentence st ! cur)) = i"
proof -
  have se: "same_entries m0 (st_model st)" and lt: "st_sentence st ! cur < n_w m0"
    using assms(2) by (simp_all add: ready_def)
  have "n_nw (words (st_model st) ! (st_sentence st ! cur)) = n_nw (words m0 ! (st_sentence st ! cur))"
    using se by (rule same_entries_fields)
  moreover have "words m0 ! (st_sentence st ! cur) \<in> set (words m0)"
    using lt by (simp add: n_w_def)
  ultimately show ?thesis
    using assms(1) unfolding fair_for_def by (metis image_eqI insertI2)
qed

lemma find_words_recursive_loop_terminates:
  assumes wf: "wf_model m0" and fair: "fair_for rand m0"
    and rec: "\<And>st. ready m0 (Suc cur) len st \<Longrightarrow>
                \<exists>fuel r. find_words_recursive rand fuel len (Suc cur) st = Value r"
    and lt: "Suc cur < len"
  shows "ready m0 cur len st \<Longrightarrow>
         \<exists>fuel r. find_words_recursive_loop rand fuel len cur (st_sentence st ! cur) st = Value r"
proof (induction "card {i. i < n_nw (words (st_model st) ! (st_sentence st ! cur)) \<and>
                         \<not> tested (words (st_model st) ! (st_sentence st ! cur)) i}"
       arbitrary: st rule: less_induct)
  case less
  note rdy = less.prems
  define this where "this = st_sentence st ! cur"
  define w where "w = words (st_model st) ! this"
  have pre: "pre cur len st" and se: "same_entries m0 (st_model st)" and this_lt: "this < n_w m0"
    using rdy by (simp_all add: ready_def this_def)
  show ?case
  proof (cases "\<exists>j<n_nw w. \<not> tested w j")
    case False
    then have "find_words_recursive_loop rand (Suc 0) len cur this st = Value (False, st)"
      using find_words_recursive_loop_exit [of w st this rand 0 len cur] by (simp add: w_def)
    then show ?thesis unfolding this_def by blast
  next
    case nall: True
    have "\<forall>i<n_nw w. \<forall>k. \<exists>j\<ge>k. rand j mod n_nw w = i"
      using ready_fair [OF fair rdy] by (simp add: w_def this_def)
    from first_untested [OF this nall, of "st_rand_calls st"]
    obtain d where skip: "\<forall>k<d. tested w (rand (st_rand_calls st + k) mod n_nw w)"
      and hit: "\<not> tested w (rand (st_rand_calls st + d) mod n_nw w)"
      by blast
    define std where "std = st\<lparr>st_rand_calls := st_rand_calls st + d\<rparr>"
    define i where "i = rand (st_rand_calls std) mod n_nw w"
    define st3 where "st3 = (set_tested (std\<lparr>st_rand_calls := Suc (st_rand_calls std)\<rparr>) this
                     ((tested w)(i := True)))
                    \<lparr>st_sentence := (st_sentence std)[Suc cur := next_words w ! i]\<rparr>"
    have skips: "find_words_recursive_loop rand (d + fuel) len cur this st =
        find_words_recursive_loop rand fuel len cur this std" for fuel
      using find_words_recursive_loop_skips [OF w_def nall skip] by (simp add: std_def)
    have ilt: "i < n_nw w" using nall by (auto simp: i_def)
    have nti: "\<not> tested w i" using hit by (simp add: i_def std_def)
    have wd: "w = words (st_model std) ! this" by (simp add: w_def std_def)
    note unf = find_words_recursive_loop_try [of w std this i rand _ len cur, OF wd i_def nall nti,
        folded st3_def]
    have p3: "post cur len st False st3"
      by (simp add: post_def st3_def std_def set_tested_def same_entries_def static_update n_w_def)
    have pre3: "pre (Suc cur) len st3"
      using pre_post [OF pre p3] lt by (simp add: pre_def)
    have se3: "same_entries m0 (st_model st3)"
      using se p3 by (auto simp: post_def intro: same_entries_trans)
    have nw: "n_w (st_model st) = n_w m0" using se by (rule same_entries_n_w)
    have "st_sentence st3 ! Suc cur = next_words w ! i"
      using pre lt by (simp add: st3_def std_def pre_def)
    moreover have "next_words w ! i < n_w m0"
      using wf_next_word [of "st_model st" this i] same_entries_wf [OF se] wf this_lt ilt nw
      by (simp add: w_def)
    ultimately have rdy3: "ready m0 (Suc cur) len st3"
      using pre3 se3 by (simp add: ready_def)
    from rec [OF rdy3] obtain fuel1 f st4
      where r: "find_words_recursive rand fuel1 len (Suc cur) st3 = Value (f, st4)"
      by (metis surj_pair)
    show ?thesis
    proof (cases f)
      case True
      then have "find_words_recursive_loop rand (Suc fuel1) len cur this std = Value (True, st4)"
        using r unfolding unf by simp
      then have "find_words_recursive_loop rand (d + Suc fuel1) len cur this st = Value (True, st4)"
        by (simp only: skips)
      then show ?thesis unfolding this_def by blast
    next
      case False
      from find_words_recursive_post [OF r pre3] have p4: "post (Suc cur) len st3 f st4" .
      then have p4': "post cur len st3 False st4"
        using take_Suc_shrink [of cur "st_sentence st4" "st_sentence st3"]
        by (simp add: post_def)
      have p34: "post cur len st False st4"
        using p3 p4' by (rule post_trans)
      have this4: "st_sentence st4 ! cur = this"
        using p34 take_Suc_nth [of cur "st_sentence st4" "st_sentence st" cur]
        by (simp add: post_def this_def)
      have se4: "same_entries m0 (st_model st4)"
        using se p34 by (auto simp: post_def intro: same_entries_trans)
      have rdy4: "ready m0 cur len st4"
        using pre_post [OF pre p34] se4 this4 this_lt by (simp add: ready_def)
      define w4 where "w4 = words (st_model st4) ! this"
      have n4: "n_nw w4 = n_nw w"
        using same_entries_fields(5) [OF post_same_entries [OF p34], of this]
        by (simp add: w4_def w_def)
      have "this < n_w (st_model st3)"
        using this_lt same_entries_n_w [OF se3] by simp
      then have "markers_kept (st_model st3) (st_model st4) this"
        using search_markers [THEN conjunct1, rule_format, of rand fuel1 len "Suc cur" st3 st4 this]
          r False pre3 by simp
      moreover have "tested (words (st_model st3) ! this) = (tested w)(i := True)"
        using this_lt nw by (simp add: st3_def std_def set_tested_def n_w_def)
      ultimately have "(\<forall>j<n_nw w. tested w4 j) \<or> tested w4 = (tested w)(i := True)"
        using n4 by (auto simp: markers_kept_def exhausted_def w4_def)
      from untested_card_less [OF ilt nti this]
      have "card {j. j < n_nw w4 \<and> \<not> tested w4 j} < card {j. j < n_nw w \<and> \<not> tested w j}"
        by (simp add: n4)
      then have "\<exists>fuel r. find_words_recursive_loop rand fuel len cur (st_sentence st4 ! cur) st4 = Value r"
        using less.hyps [of st4] rdy4 by (simp add: this4 w4_def w_def this_def)
      then obtain fuel2 r2
        where r2: "find_words_recursive_loop rand fuel2 len cur this st4 = Value r2"
        using this4 by auto
      define F where "F = max fuel1 fuel2"
      have "find_words_recursive rand F len (Suc cur) st3 = Value (f, st4)"
        using r by (rule find_words_recursive_mono) (simp add: F_def)
      moreover have "find_words_recursive_loop rand F len cur this st4 = Value r2"
        using r2 by (rule find_words_recursive_loop_mono) (simp add: F_def)
      ultimately have "find_words_recursive_loop rand (Suc F) len cur this std = Value r2"
        using False unfolding unf by simp
      then have "find_words_recursive_loop rand (d + Suc F) len cur this st = Value r2"
        by (simp only: skips)
      then show ?thesis unfolding this_def by blast
    qed
  qed
qed

lemma find_words_recursive_terminates:
  assumes wf: "wf_model m0" and fair: "fair_for rand m0"
  shows "ready m0 cur len st \<Longrightarrow> \<exists>fuel r. find_words_recursive rand fuel len cur st = Value r"
proof (induction "len - cur" arbitrary: cur st)
  case 0
  then show ?case by (simp add: ready_def pre_def)
next
  case (Suc d)
  show ?case
  proof (cases "len = Suc cur")
    case True
    then have "find_words_recursive rand (Suc 0) len cur st =
        Value (is_sentence_ender (words (st_model st) ! (st_sentence st ! cur)), st)"
      by (simp add: find_words_recursive_Suc)
    then show ?thesis by blast
  next
    case False
    then have lt: "Suc cur < len" using Suc.hyps(2) by simp
    define this where "this = st_sentence st ! cur"
    define st1 where "st1 = set_tested st this
        (clear_flags (tested (words (st_model st) ! this)) (n_nw (words (st_model st) ! this)))"
    have rec: "\<exists>fuel r. find_words_recursive rand fuel len (Suc cur) st' = Value r"
      if "ready m0 (Suc cur) len st'" for st'
      using Suc.hyps(1) [of "Suc cur" st'] Suc.hyps(2) that by simp
    have "ready m0 cur len st1"
      using Suc.prems same_entries_trans [of m0 "st_model st" "st_model st1"]
      by (simp add: ready_def pre_def st1_def)
    from find_words_recursive_loop_terminates [OF wf fair rec lt this]
    obtain fuel r where "find_words_recursive_loop rand fuel len cur this st1 = Value r"
      by (auto simp: st1_def this_def)
    then have "find_words_recursive rand (Suc fuel) len cur st = Value r"
      using False by (simp add: find_words_recursive_Suc st1_def this_def)
    then show ?thesis by blast
  qed
qed

lemma find_words_loop_terminates:
  assumes wf: "wf_model m0" and fair: "fair_for rand m0" and len: "0 < len"
  shows "length (st_sentence st) = len \<Longrightarrow> same_entries m0 (st_model st) \<Longrightarrow>
         \<exists>fuel r. find_words_loop rand fuel len ssw_checked st = Value r"
proof (induction "card {i. i < n_ssw m0 \<and> \<not> ssw_checked i}" arbitrary: ssw_checked st
       rule: less_induct)
  case less
  note sl = less.prems(1) and se = less.prems(2)
  have n: "n_ssw (st_model st) = n_ssw m0"
    using se by (simp add: same_entries_def n_ssw_def)
  show ?case
  proof (cases "\<exists>j<n_ssw (st_model st). \<not> ssw_checked j")
    case False
    then have "find_words_loop rand (Suc 0) len ssw_checked st = Value (False, st)"
      using find_words_loop_exit [of st ssw_checked rand 0 len] by simp
    then show ?thesis by blast
  next
    case nall: True
    have "\<forall>i<n_ssw (st_model st). \<forall>k. \<exists>j\<ge>k. rand j mod n_ssw (st_model st) = i"
      using fair unfolding fair_for_def n by blast
    from first_untested [OF this nall, of "st_rand_calls st"]
    obtain d where skip: "\<forall>k<d. ssw_checked (rand (st_rand_calls st + k) mod n_ssw (st_model st))"
      and hit: "\<not> ssw_checked (rand (st_rand_calls st + d) mod n_ssw (st_model st))"
      by blast
    define std where "std = st\<lparr>st_rand_calls := st_rand_calls st + d\<rparr>"
    define i where "i = rand (st_rand_calls std) mod n_ssw (st_model std)"
    define st2 where "st2 = std\<lparr>st_rand_calls := Suc (st_rand_calls std),
        st_sentence := (st_sentence std)[0 := sentence_starting_words (st_model std) ! i]\<rparr>"
    have skips: "find_words_loop rand (d + fuel) len ssw_checked st =
        find_words_loop rand fuel len ssw_checked std" for fuel
      using find_words_loop_skips [OF nall skip] by (simp add: std_def)
    have nall': "\<exists>j<n_ssw (st_model std). \<not> ssw_checked j" using nall by (simp add: std_def)
    have ilt: "i < n_ssw m0" using nall n by (auto simp: i_def std_def)
    have nti: "\<not> ssw_checked i" using hit by (simp add: i_def std_def)
    note unf = find_words_loop_try [of i rand std ssw_checked _ len, OF i_def nall' nti,
        folded st2_def]
    have "sentence_starting_words (st_model st) ! i < n_w m0"
      using wf ilt se unfolding wf_model_def same_entries_def n_ssw_def by (metis nth_mem)
    then have rdy2: "ready m0 0 len st2"
      using se sl len by (simp add: ready_def pre_def st2_def std_def)
    from find_words_recursive_terminates [OF wf fair rdy2] obtain fuel1 f st3
      where r: "find_words_recursive rand fuel1 len 0 st2 = Value (f, st3)"
      by (metis surj_pair)
    show ?thesis
    proof (cases f)
      case True
      then have "find_words_loop rand (Suc fuel1) len ssw_checked std = Value (True, st3)"
        using r unfolding unf by simp
      then have "find_words_loop rand (d + Suc fuel1) len ssw_checked st = Value (True, st3)"
        by (simp only: skips)
      then show ?thesis by blast
    next
      case False
      have "pre 0 len st2" using rdy2 by (simp add: ready_def)
      from find_words_recursive_post [OF r this] have p: "post 0 len st2 f st3" .
      have se3: "same_entries m0 (st_model st3)"
        using se p same_entries_trans [of m0 "st_model st2" "st_model st3"]
        by (simp add: post_def st2_def std_def)
      have sl3: "length (st_sentence st3) = len"
        using p sl by (simp add: post_def st2_def std_def)
      have "card {j. j < n_ssw m0 \<and> \<not> (ssw_checked(i := True)) j}
          < card {j. j < n_ssw m0 \<and> \<not> ssw_checked j}"
        using ilt nti by (rule untested_card_less) (rule disjI2, rule refl)
      from less.hyps [OF this sl3 se3] obtain fuel2 r2
        where r2: "find_words_loop rand fuel2 len (ssw_checked(i := True)) st3 = Value r2"
        by blast
      define F where "F = max fuel1 fuel2"
      have "find_words_recursive rand F len 0 st2 = Value (f, st3)"
        using r by (rule find_words_recursive_mono) (simp add: F_def)
      moreover have "find_words_loop rand F len (ssw_checked(i := True)) st3 = Value r2"
        using r2 by (rule find_words_loop_mono) (simp add: F_def)
      ultimately have "find_words_loop rand (Suc F) len ssw_checked std = Value r2"
        using False unfolding unf by simp
      then have "find_words_loop rand (d + Suc F) len ssw_checked st = Value r2"
        by (simp only: skips)
      then show ?thesis by blast
    qed
  qed
qed

lemma generate_sentence_mono:
  assumes "generate_sentence rand fuel model calls len = Value r" "fuel \<le> fuel'"
  shows "generate_sentence rand fuel' model calls len = Value r"
proof -
  define st where
    "st = \<lparr>st_model = model, st_sentence = replicate (nat len) 0, st_rand_calls = calls\<rparr>"
  obtain s st' where r: "r = (s, st')" by (cases r)
  from generate_sentence_Value [OF assms(1) [unfolded r]]
  have pos: "0 < len" and run: "find_words rand fuel (nat len) st = Value (s \<noteq> None, st')"
    unfolding st_def by simp_all
  have "find_words rand fuel' (nat len) st = Value (s \<noteq> None, st')"
    using run assms(2) unfolding find_words_def by (rule find_words_loop_mono)
  then show ?thesis
    using assms(1) run pos unfolding generate_sentence_def st_def [symmetric] by simp
qed

text \<open>
  C3, as amended. For a well-formed model and a length of at least one,
  \<^verbatim>\<open>generate_sentence\<close> returns (a sentence or the null pointer) whenever the values of
  \<^verbatim>\<open>rand()\<close> are fair for the model: for each range the search draws from, every index of
  the range keeps turning up. From some amount of fuel on, every run gives the same result.
  Cycles in the successor graph play no role.
\<close>

theorem generate_sentence_terminates:
  assumes "wf_model model" "fair_for rand model" "0 < len"
  shows "\<exists>fuel r. \<forall>fuel'\<ge>fuel. generate_sentence rand fuel' model calls len = Value r"
proof -
  define st where
    "st = \<lparr>st_model = model, st_sentence = replicate (nat len) 0, st_rand_calls = calls\<rparr>"
  have "length (st_sentence st) = nat len" "same_entries model (st_model st)" "0 < nat len"
    using assms(3) by (simp_all add: st_def)
  from find_words_loop_terminates [OF assms(1,2) this(3,1,2)]
  obtain fuel f st' where "find_words rand fuel (nat len) st = Value (f, st')"
    unfolding find_words_def by (metis surj_pair)
  then have "\<exists>r. generate_sentence rand fuel model calls len = Value r"
    using assms(3) unfolding generate_sentence_def st_def [symmetric] by (cases f) simp_all
  then obtain r where "generate_sentence rand fuel model calls len = Value r" ..
  then have "\<forall>fuel'\<ge>fuel. generate_sentence rand fuel' model calls len = Value r"
    using generate_sentence_mono by blast
  then show ?thesis by blast
qed

lemmas build_eval = create_model_def create_model_step_def check_if_ends_sentence_def
  is_terminator_def add_next_word_to_model_def decapitalize_def tolower_def upper_case_def
  lower_case_def search_words_def create_word_def initialize_model_def n_w_def n_ssw_def
  MAX_WORDS_IN_MODEL_def MAX_STARTING_WORDS_def link_words_def n_nw_def MAX_FOLLOWING_WORDS_def

lemma create_example_model: "create_model [''a'', ''b.''] = Inr example_model"
  by (simp add: build_eval) (simp add: example_model_def)

lemma create_stuck_model: "create_model [''a'', ''b.'', ''a'', ''b.''] = Inr stuck_model"
  by (simp add: build_eval) (simp add: stuck_model_def)

lemma create_chain_model: "create_model [''a'', ''a'', ''b'', ''c.''] = Inr chain_model"
  by (simp add: build_eval) (simp add: chain_model_def)

lemma fair_for_id: "fair_for id m"
  unfolding fair_for_def
proof (intro ballI allI impI)
  fix n i k :: nat
  assume "i < n"
  then obtain n' where n: "n = Suc n'" by (cases n) simp_all
  have "k \<le> k * n + i" unfolding n by simp
  moreover have "(k * n + i) mod n = i" using \<open>i < n\<close> by simp
  ultimately have "k \<le> k * n + i \<and> id (k * n + i) mod n = i" by simp
  then show "\<exists>j\<ge>k. id j mod n = i" by (rule exI)
qed

lemma wf_example_model: "wf_model example_model"
  by (simp add: wf_model_def example_model_def n_w_def)

theorem generate_sentence_terminates_witness:
  "wf_model example_model \<and> fair_for id example_model \<and> (0::int) < 2 \<and>
   (\<exists>fuel r. \<forall>fuel'\<ge>fuel. generate_sentence id fuel' example_model 0 2 = Value r)"
  using generate_sentence_terminates [of example_model id 2 0] wf_example_model fair_for_id
  by simp

lemma stuck_loop:
  assumes "st_model st = stuck_model" "ssw_checked 0" "\<not> ssw_checked 1"
  shows "find_words_loop constant_rand fuel len ssw_checked st = OutOfFuel"
  using assms(1)
proof (induction fuel arbitrary: st)
  case 0
  show ?case by simp
next
  case (Suc fuel)
  have n: "n_ssw (st_model st) = 2" using Suc.prems by (simp add: stuck_model_def n_ssw_def)
  have "\<exists>j<n_ssw (st_model st). \<not> ssw_checked j"
    using assms(3) n by (intro exI [of _ 1]) simp
  moreover have "ssw_checked (constant_rand (st_rand_calls st) mod n_ssw (st_model st))"
    using assms(2) by (simp add: constant_rand_def)
  ultimately have "find_words_loop constant_rand (Suc fuel) len ssw_checked st =
      find_words_loop constant_rand fuel len ssw_checked (st\<lparr>st_rand_calls := Suc (st_rand_calls st)\<rparr>)"
    by (rule find_words_loop_skip)
  then show ?case using Suc.IH [of "st\<lparr>st_rand_calls := Suc (st_rand_calls st)\<rparr>"] Suc.prems
    by simp
qed

lemma stuck_find_words:
  "find_words constant_rand fuel 1
     \<lparr>st_model = stuck_model, st_sentence = [0], st_rand_calls = calls\<rparr> = OutOfFuel"
proof (cases fuel)
  case 0
  then show ?thesis by (simp add: find_words_def)
next
  case (Suc f)
  define st where "st = \<lparr>st_model = stuck_model, st_sentence = [0], st_rand_calls = calls\<rparr>"
  define chk where "chk = clear_flags (\<lambda>_. False) (n_ssw (st_model st))"
  define st2 where "st2 = st\<lparr>st_rand_calls := Suc (st_rand_calls st),
      st_sentence := (st_sentence st)[0 := sentence_starting_words (st_model st) ! 0]\<rparr>"
  have n: "n_ssw (st_model st) = 2" by (simp add: st_def stuck_model_def n_ssw_def)
  have c: "\<not> chk j" for j by (simp add: chk_def clear_flags_apply)
  have "\<exists>j<n_ssw (st_model st). \<not> chk j" using c n by (intro exI [of _ 0]) simp
  from find_words_loop_try [of 0 constant_rand st chk f 1, OF _ this c]
  have unf: "find_words_loop constant_rand (Suc f) 1 chk st =
      (case find_words_recursive constant_rand f 1 0 st2 of
         OutOfFuel \<Rightarrow> OutOfFuel
       | Fault x \<Rightarrow> Fault x
       | Value (found, st3) \<Rightarrow>
           if found then Value (True, st3)
           else find_words_loop constant_rand f 1 (chk(0 := True)) st3)"
    by (simp add: constant_rand_def st2_def)
  have "find_words_loop constant_rand (Suc f) 1 chk st = OutOfFuel"
  proof (cases f)
    case 0
    then show ?thesis using unf by simp
  next
    case (Suc g)
    have "find_words_recursive constant_rand f 1 0 st2 = Value (False, st2)"
      using Suc by (simp add: find_words_recursive_Suc st2_def st_def stuck_model_def)
    moreover have "find_words_loop constant_rand f 1 (chk(0 := True)) st2 = OutOfFuel"
      using c by (intro stuck_loop) (simp_all add: st2_def st_def)
    ultimately show ?thesis using unf by simp
  qed
  then show ?thesis using Suc by (simp add: find_words_def chk_def st_def)
qed

text \<open>
  C3 as stated fails: when \<^verbatim>\<open>rand()\<close> keeps returning the same value, the loop of
  \<^verbatim>\<open>find_words\<close> draws the first sentence starter again and again and never reaches the
  second one. The model is the one built from the text \<^verbatim>\<open>a b. a b.\<close>, the length is 1.
\<close>

theorem generate_sentence_can_run_forever:
  "\<not> (\<exists>fuel r. generate_sentence constant_rand fuel stuck_model 0 1 = Value r)"
proof -
  have "generate_sentence constant_rand fuel stuck_model 0 1 = OutOfFuel" for fuel
    using stuck_find_words [of fuel 0] by (simp add: generate_sentence_def)
  then show ?thesis by simp
qed

lemma chain_model_chain: "valid_chain chain_model [0, 1, 2] 3"
  by (auto simp: valid_chain_def chain_model_def less_Suc_eq numeral_3_eq_3)

text \<open>
  C1 fails on the code. The text \<^verbatim>\<open>a a b c.\<close> gives a model with the valid chain
  \<^verbatim>\<open>a b c\<close> of length 3. With the values 1, 2, 3, ... of \<^verbatim>\<open>rand()\<close> the search first
  extends \<^verbatim>\<open>a\<close> by \<^verbatim>\<open>a\<close>; the nested call on \<^verbatim>\<open>a\<close> clears and then fills the
  one \<^verbatim>\<open>tested\<close> array of that entry, the outer loop finds every marker set and gives up
  without trying \<^verbatim>\<open>b\<close>: the result is the null pointer. With the values 0, 1, 2, ... the
  same call returns a sentence.
\<close>

theorem search_misses_existing_chain:
  "create_model [''a'', ''a'', ''b'', ''c.''] = Inr chain_model \<and>
   0 \<in> set (sentence_starting_words chain_model) \<and>
   1 \<in> set (next_words (words chain_model ! 0)) \<and>
   2 \<in> set (next_words (words chain_model ! 1)) \<and>
   is_sentence_ender (words chain_model ! 2) \<and>
   sentence_of (generate_sentence Suc 20 chain_model 0 3) = Value None \<and>
   sentence_of (generate_sentence id 20 chain_model 0 3) = Value (Some ''A b c.'')"
proof -
  have "sentence_of (generate_sentence Suc 20 chain_model 0 3) = Value None"
    by code_simp
  moreover have "sentence_of (generate_sentence id 20 chain_model 0 3) = Value (Some ''A b c.'')"
    by code_simp
  moreover have "0 \<in> set (sentence_starting_words chain_model) \<and>
      1 \<in> set (next_words (words chain_model ! 0)) \<and>
      2 \<in> set (next_words (words chain_model ! 1)) \<and>
      is_sentence_ender (words chain_model ! 2)"
    by (simp add: chain_model_def)
  ultimately show ?thesis using create_chain_model by simp
qed

end
